theory Spec2Isabelle
  imports Main "HOL-Library.AList"
begin

section \<open>Data model\<close>

text \<open>
  The graph lives in a store of node objects. A node pointer (\<open>Node*\<close>) is an address
  into the store, \<open>h ! p\<close> the object it points to, and a new object is appended at the
  address \<open>length h\<close>; a null pointer is \<open>None\<close> of \<open>node_ptr option\<close>. The node type
  itself is external to \<open>Model.cpp\<close>; the record below carries the capabilities the file
  calls: \<open>GetId\<close>, \<open>GetInputPorts\<close> (each input port given by its \<open>GetParentNodes\<close>
  sequence) and \<open>GetDependentNodes\<close>.

  Modelled from the spec: \<open>storedParentIds\<close>, the old-id references a node reconstructed
  from a description was encoded with, one list per input port, which the reconstruction
  resolves into parent links; a node built by client code stores none.
\<close>

type_synonym NodeId = nat
type_synonym node_ptr = nat

record Node =
  GetId :: NodeId
  GetInputPorts :: "node_ptr list list"
  GetDependentNodes :: "node_ptr list"
  storedParentIds :: "NodeId list list"

type_synonym heap = "Node list"

text \<open>\<open>Model::_idToNodeMap\<close>: an unordered map from id to (shared) node pointer. The
  association list has one entry per key; its order stands for the unspecified iteration
  order of the hash table, so that \<open>begin()\<close> is its first entry.\<close>

record Model =
  idToNodeMap :: "(NodeId \<times> node_ptr) list"

text \<open>Modelled from the spec: \<open>Model::Size\<close> (declared in Model.h) is the count of
  currently owned nodes.\<close>

definition Size :: "Model \<Rightarrow> nat" where
  "Size m = length (idToNodeMap m)"

text \<open>\<open>Model::GetNode\<close>: \<open>find\<close> on the map, \<open>nullptr\<close> when the id is absent. The method
  is not \<open>const\<close>, so the model is returned with the result.\<close>

definition GetNode :: "Model \<Rightarrow> NodeId \<Rightarrow> node_ptr option \<times> Model" where
  "GetNode m i =
     (case map_of (idToNodeMap m) i of
        None \<Rightarrow> (None, m)
      | Some p \<Rightarrow> (Some p, m))"

section \<open>ModelSerializationContext\<close>

text \<open>\<open>_oldToNewNodeMap\<close> maps an old id to a node pointer, which may be null.
  The constructor only stores its two arguments and leaves the map empty.\<close>

record ModelSerializationContext =
  oldToNewNodeMap :: "NodeId \<rightharpoonup> node_ptr option"

definition ModelSerializationContext_ctor :: ModelSerializationContext where
  "ModelSerializationContext_ctor = \<lparr>oldToNewNodeMap = Map.empty\<rparr>"

text \<open>\<open>GetNodeFromId\<close> is \<open>return _oldToNewNodeMap[id]\<close>: \<open>operator[]\<close> of a standard map
  value-initialises (to \<open>nullptr\<close>) and inserts an entry for a key that is absent.\<close>

definition GetNodeFromId ::
  "ModelSerializationContext \<Rightarrow> NodeId \<Rightarrow> node_ptr option \<times> ModelSerializationContext" where
  "GetNodeFromId ctx i =
     (case oldToNewNodeMap ctx i of
        None \<Rightarrow> (None, ctx\<lparr>oldToNewNodeMap := (oldToNewNodeMap ctx)(i \<mapsto> None)\<rparr>)
      | Some p \<Rightarrow> (p, ctx))"

definition MapNode ::
  "ModelSerializationContext \<Rightarrow> NodeId \<Rightarrow> node_ptr option \<Rightarrow> ModelSerializationContext" where
  "MapNode ctx i node = ctx\<lparr>oldToNewNodeMap := (oldToNewNodeMap ctx)(i \<mapsto> node)\<rparr>"

text \<open>A history of calls on one context, for statements about ids that were never
  passed to \<open>MapNode\<close>.\<close>

datatype ctx_call = CallGetNodeFromId NodeId | CallMapNode NodeId "node_ptr option"

fun run_calls :: "ctx_call list \<Rightarrow> ModelSerializationContext \<Rightarrow> ModelSerializationContext" where
  "run_calls [] ctx = ctx"
| "run_calls (CallGetNodeFromId i # cs) ctx = run_calls cs (snd (GetNodeFromId ctx i))"
| "run_calls (CallMapNode i node # cs) ctx = run_calls cs (MapNode ctx i node)"

fun registered :: "NodeId \<Rightarrow> ctx_call \<Rightarrow> bool" where
  "registered i (CallGetNodeFromId j) = False"
| "registered i (CallMapNode j node) = (i = j)"

section \<open>Restoring nodes into the container\<close>

text \<open>The state the restore loop works on besides the container: the node store and the
  remapping context.\<close>

type_synonym world = "heap \<times> ModelSerializationContext"

text \<open>The loop of \<open>Model::SetObjectState\<close> and of \<open>Model::Deserialize\<close> over the decoded
  nodes: \<open>RegisterDependencies\<close> on the node (external, the parameter \<open>reg\<close>), then
  \<open>_idToNodeMap[sharedNode->GetId()] = sharedNode\<close>.\<close>

fun addNodes ::
  "(node_ptr \<Rightarrow> world \<Rightarrow> world) \<Rightarrow> node_ptr list \<Rightarrow> Model \<times> world \<Rightarrow> Model \<times> world" where
  "addNodes reg [] (m, w) = (m, w)"
| "addNodes reg (node # nodes) (m, w) =
     (let w' = reg node w
      in addNodes reg nodes
           (m\<lparr>idToNodeMap := AList.update (GetId (fst w' ! node)) node (idToNodeMap m)\<rparr>, w'))"

text \<open>The entries the loop writes, in the order it writes them.\<close>

fun insertions ::
  "(node_ptr \<Rightarrow> world \<Rightarrow> world) \<Rightarrow> node_ptr list \<Rightarrow> world \<Rightarrow> (NodeId \<times> node_ptr) list" where
  "insertions reg [] w = []"
| "insertions reg (node # nodes) w =
     (let w' = reg node w in (GetId (fst w' ! node), node) # insertions reg nodes w')"

text \<open>\<open>RegisterDependencies()\<close> as \<open>Model::SetObjectState\<close> reaches it: the call has no
  argument and the context of \<open>SetObjectState\<close> is handed to nobody, so the registration
  works on the node store and leaves that context as it is.\<close>

definition onStore :: "(node_ptr \<Rightarrow> heap \<Rightarrow> heap) \<Rightarrow> node_ptr \<Rightarrow> world \<Rightarrow> world" where
  "onStore reg node w = (reg node (fst w), snd w)"

text \<open>\<open>Model::SetObjectState\<close>. The \<open>modelContext\<close> it constructs from its argument
  \<open>context\<close> is a local that is neither pushed nor passed on: the nodes are read from the
  description alone (external, the parameter \<open>decode\<close>, on the node store), and the loop
  runs with the registration on the node store.\<close>

definition SetObjectState ::
  "('d \<Rightarrow> heap \<Rightarrow> node_ptr list \<times> heap) \<Rightarrow> (node_ptr \<Rightarrow> heap \<Rightarrow> heap) \<Rightarrow>
     'd \<Rightarrow> ModelSerializationContext \<Rightarrow> Model \<times> heap \<Rightarrow> Model \<times> heap" where
  "SetObjectState decode reg description context mh =
     (let modelContext = ModelSerializationContext_ctor;
          (nodes, h1) = decode description (snd mh);
          (m', w') = addNodes (onStore reg) nodes (fst mh, (h1, modelContext))
      in (m', fst w'))"

text \<open>\<open>Model::Deserialize\<close>: the context is pushed on the deserializer while the nodes are
  read and registered, so both work with it; then the same loop.\<close>

definition Deserialize ::
  "('d \<Rightarrow> world \<Rightarrow> node_ptr list \<times> world) \<Rightarrow> (node_ptr \<Rightarrow> world \<Rightarrow> world) \<Rightarrow>
     'd \<Rightarrow> Model \<times> heap \<Rightarrow> Model \<times> heap" where
  "Deserialize decode reg serializer mh =
     (let modelContext = ModelSerializationContext_ctor;
          (nodes, w) = decode serializer (snd mh, modelContext);
          (m', w') = addNodes reg nodes (fst mh, w)
      in (m', fst w'))"

section \<open>NodeIterator\<close>

record NodeIterator =
  stack :: "node_ptr list"
  visitedNodes :: "node_ptr set"
  currentNode :: "node_ptr option"
  visitFullModel :: bool

text \<open>Modelled from the spec: \<open>NodeIterator::IsValid\<close> and \<open>NodeIterator::Get\<close> are
  declared in Model.h; the iterator is exhausted (invalid) when no current element is set,
  and \<open>Get\<close> returns the current element.\<close>

definition IsValid :: "NodeIterator \<Rightarrow> bool" where
  "IsValid it = (currentNode it \<noteq> None)"

definition Get :: "NodeIterator \<Rightarrow> node_ptr option" where
  "Get it = currentNode it"

text \<open>The \<open>canVisit\<close> flag of \<open>Next\<close>: both loops run to their end, and-ing the flag
  with the membership test of every parent.\<close>

definition canVisit :: "heap \<Rightarrow> node_ptr set \<Rightarrow> node_ptr \<Rightarrow> bool" where
  "canVisit h visited node =
     fold (\<lambda>inputPort cv. fold (\<lambda>parentNode cv. cv \<and> parentNode \<in> visited) inputPort cv)
       (GetInputPorts (h ! node)) True"

text \<open>Modelled from the spec: \<open>ModelImpl::Reverse\<close> is declared outside Model.cpp; it
  walks a sequence in reverse order, which is \<open>rev\<close> here.

  The else branch of \<open>Next\<close>: the input ports are walked through
  \<open>ModelImpl::Reverse\<close>, the parents of each port in their own order, each
  \<open>push_back\<close> appending at the top of the stack.\<close>

definition pushParents :: "heap \<Rightarrow> node_ptr \<Rightarrow> node_ptr list \<Rightarrow> node_ptr list" where
  "pushParents h node stk =
     fold (\<lambda>input stk. fold (\<lambda>parentNode stk. stk @ [parentNode]) input stk)
       (rev (GetInputPorts (h ! node))) stk"

text \<open>The dependents of an emitted node, walked through \<open>ModelImpl::Reverse\<close>.\<close>

definition pushDependents :: "heap \<Rightarrow> node_ptr \<Rightarrow> node_ptr list \<Rightarrow> node_ptr list" where
  "pushDependents h node stk =
     fold (\<lambda>child stk. stk @ [child]) (rev (GetDependentNodes (h ! node))) stk"

datatype loop_ctl = Continue | Break

text \<open>One pass through the body of the \<open>while\<close> loop of \<open>Next\<close>, entered with a
  non-empty stack; \<open>_stack.back()\<close> is the last element of the list.\<close>

definition Next_body :: "heap \<Rightarrow> NodeIterator \<Rightarrow> loop_ctl \<times> NodeIterator" where
  "Next_body h it =
     (let node = last (stack it) in
      if node \<in> visitedNodes it then (Continue, it\<lparr>stack := butlast (stack it)\<rparr>)
      else if canVisit h (visitedNodes it) node then
        (let it1 = it\<lparr>stack := butlast (stack it),
                       visitedNodes := insert node (visitedNodes it)\<rparr>;
             it2 = (if visitFullModel it1
                    then it1\<lparr>stack := pushDependents h node (stack it1)\<rparr> else it1)
         in (Break, it2\<lparr>currentNode := Some node\<rparr>))
      else (Continue, it\<lparr>stack := pushParents h node (stack it)\<rparr>))"

text \<open>The loop may run forever; \<open>None\<close> is the call that does not return.\<close>

partial_function (option) Next_loop :: "heap \<Rightarrow> NodeIterator \<Rightarrow> NodeIterator option" where
  "Next_loop h it =
     (if stack it = [] then Some it
      else (case Next_body h it of
              (Break, it') \<Rightarrow> Some it'
            | (Continue, it') \<Rightarrow> Next_loop h it'))"

definition Next :: "heap \<Rightarrow> NodeIterator \<Rightarrow> NodeIterator option" where
  "Next h it = Next_loop h (it\<lparr>currentNode := None\<rparr>)"

text \<open>The seed search of the constructor:
  \<open>while (!IsLeaf(n)) n = n->GetDependentNodes()[0]\<close>.\<close>

partial_function (option) findOutputNode :: "heap \<Rightarrow> node_ptr \<Rightarrow> node_ptr option" where
  "findOutputNode h n =
     (case GetDependentNodes (h ! n) of
        [] \<Rightarrow> Some n
      | d # ds \<Rightarrow> findOutputNode h d)"

text \<open>\<open>NodeIterator::NodeIterator\<close>. \<open>_idToNodeMap.begin()\<close> is the head of the
  association list, which exists because \<open>Size\<close> is not zero there.\<close>

definition NodeIterator_ctor :: "Model \<Rightarrow> heap \<Rightarrow> node_ptr list \<Rightarrow> NodeIterator option" where
  "NodeIterator_ctor m h outputNodes =
     (let it0 = \<lparr>stack = [], visitedNodes = {}, currentNode = None, visitFullModel = False\<rparr>
      in if Size m = 0 then Some it0
         else
           (let it1 = it0\<lparr>stack := outputNodes\<rparr>
            in if length (stack it1) = 0
               then Option.bind (findOutputNode h (snd (hd (idToNodeMap m))))
                      (\<lambda>anOutputNode.
                         Next h (it1\<lparr>stack := stack it1 @ [anOutputNode],
                                      visitFullModel := True\<rparr>))
               else Next h it1))"

text \<open>The consumer loop, as \<open>Model::GetDescription\<close> writes it:
  \<open>while (it.IsValid()) { nodes.push_back(it.Get()); it.Next(); }\<close>.\<close>

partial_function (option) collectNodes ::
  "heap \<Rightarrow> NodeIterator \<Rightarrow> node_ptr list \<Rightarrow> node_ptr list option" where
  "collectNodes h it nodes =
     (if IsValid it
      then Option.bind (Next h it) (\<lambda>it'. collectNodes h it' (nodes @ [the (Get it)]))
      else Some nodes)"

text \<open>The sequence an iterator on \<open>outputNodes\<close> emits: \<open>GetNodeIterator\<close>, then the
  consumer loop.\<close>

definition visitNodes :: "Model \<Rightarrow> heap \<Rightarrow> node_ptr list \<Rightarrow> node_ptr list option" where
  "visitNodes m h outputNodes =
     Option.bind (NodeIterator_ctor m h outputNodes) (\<lambda>it. collectNodes h it [])"

text \<open>Repeated calls of \<open>Next\<close>, \<open>k\<close> of them; \<open>None\<close> when one of them does not return.\<close>

fun Next_times :: "nat \<Rightarrow> heap \<Rightarrow> NodeIterator \<Rightarrow> NodeIterator option" where
  "Next_times 0 h it = Some it"
| "Next_times (Suc k) h it = Option.bind (Next h it) (Next_times k h)"

section \<open>Graphs held by a container\<close>

definition parents :: "heap \<Rightarrow> node_ptr \<Rightarrow> node_ptr list" where
  "parents h n = concat (GetInputPorts (h ! n))"

definition modelNodes :: "Model \<Rightarrow> node_ptr set" where
  "modelNodes m = snd ` set (idToNodeMap m)"

text \<open>The dependency relation on a node set: \<open>(p, n)\<close> when \<open>p\<close> is a parent of \<open>n\<close> on
  one of its input ports.\<close>

definition parentRel :: "heap \<Rightarrow> node_ptr set \<Rightarrow> (node_ptr \<times> node_ptr) set" where
  "parentRel h V = {(p, n). n \<in> V \<and> p \<in> set (parents h n)}"

text \<open>The container invariant of the data model: every node it holds is a live object,
  the parents of its nodes are its nodes, and the dependents of a node are exactly the
  nodes of the container that list it as a parent.\<close>

definition wellformed :: "Model \<Rightarrow> heap \<Rightarrow> bool" where
  "wellformed m h \<longleftrightarrow>
     (\<forall>n \<in> modelNodes m.
        n < length h \<and> set (parents h n) \<subseteq> modelNodes m \<and>
        set (GetDependentNodes (h ! n)) = {d \<in> modelNodes m. n \<in> set (parents h d)})"

definition acyclicModel :: "Model \<Rightarrow> heap \<Rightarrow> bool" where
  "acyclicModel m h \<longleftrightarrow> acyclic (parentRel h (modelNodes m))"

definition connectedModel :: "Model \<Rightarrow> heap \<Rightarrow> bool" where
  "connectedModel m h \<longleftrightarrow>
     (\<forall>a \<in> modelNodes m. \<forall>b \<in> modelNodes m.
        (a, b) \<in> (parentRel h (modelNodes m) \<union> (parentRel h (modelNodes m))\<inverse>)\<^sup>*)"

text \<open>The ancestors of a set of output nodes, the output nodes included.\<close>

definition ancestors :: "Model \<Rightarrow> heap \<Rightarrow> node_ptr list \<Rightarrow> node_ptr set" where
  "ancestors m h outputNodes =
     {a. \<exists>out \<in> set outputNodes. (a, out) \<in> (parentRel h (modelNodes m))\<^sup>*}"

text \<open>Every entry of the map is a node under its own id, and no node is held twice.\<close>

definition keyedById :: "Model \<Rightarrow> heap \<Rightarrow> bool" where
  "keyedById m h \<longleftrightarrow>
     distinct (map fst (idToNodeMap m)) \<and> distinct (map snd (idToNodeMap m)) \<and>
     (\<forall>(i, n) \<in> set (idToNodeMap m). GetId (h ! n) = i)"

section \<open>Invariants of the traversal\<close>

definition parentClosed :: "heap \<Rightarrow> node_ptr set \<Rightarrow> bool" where
  "parentClosed h A \<longleftrightarrow> (\<forall>a \<in> A. set (parents h a) \<subseteq> A)"

definition dependentClosed :: "heap \<Rightarrow> node_ptr set \<Rightarrow> bool" where
  "dependentClosed h A \<longleftrightarrow> (\<forall>a \<in> A. set (GetDependentNodes (h ! a)) \<subseteq> A)"

text \<open>What holds of the iterator \<open>a\<close> at the head of the loop of a call of \<open>Next\<close> that
  was entered with the iterator \<open>it\<close>.\<close>

definition NextInv :: "heap \<Rightarrow> node_ptr set \<Rightarrow> NodeIterator \<Rightarrow> NodeIterator \<Rightarrow> bool" where
  "NextInv h A it a \<longleftrightarrow>
     visitedNodes a = visitedNodes it \<and> currentNode a = None \<and>
     visitFullModel a = visitFullModel it \<and>
     set (stack it) \<subseteq> set (stack a) \<union> visitedNodes it \<and>
     (set (stack it) \<subseteq> A \<and> parentClosed h A \<longrightarrow> set (stack a) \<subseteq> A)"

text \<open>The nodes emitted so far: those the consumer has collected and the current one.\<close>

definition seen :: "NodeIterator \<Rightarrow> node_ptr list \<Rightarrow> node_ptr list" where
  "seen it nodes = nodes @ (case currentNode it of None \<Rightarrow> [] | Some q \<Rightarrow> [q])"

definition parentsBefore :: "heap \<Rightarrow> node_ptr list \<Rightarrow> bool" where
  "parentsBefore h l \<longleftrightarrow> (\<forall>i < length l. set (parents h (l ! i)) \<subseteq> set (take i l))"

definition iterInv :: "heap \<Rightarrow> node_ptr set \<Rightarrow> NodeIterator \<Rightarrow> node_ptr list \<Rightarrow> bool" where
  "iterInv h A it nodes \<longleftrightarrow>
     visitedNodes it = set (seen it nodes) \<and> distinct (seen it nodes) \<and>
     parentsBefore h (seen it nodes) \<and> set (stack it) \<subseteq> A \<and> set (seen it nodes) \<subseteq> A \<and>
     (visitFullModel it \<longrightarrow>
        (\<forall>v \<in> set (seen it nodes).
           set (GetDependentNodes (h ! v)) \<subseteq> set (seen it nodes) \<union> set (stack it)))"

text \<open>The nodes that have an ancestor (possibly themselves) on a dependency cycle.\<close>

definition cyclicNodes :: "Model \<Rightarrow> heap \<Rightarrow> node_ptr set" where
  "cyclicNodes m h =
     {n. \<exists>c. (c, c) \<in> (parentRel h (modelNodes m))\<^sup>+ \<and> (c, n) \<in> (parentRel h (modelNodes m))\<^sup>*}"

text \<open>What the consumer loop returns when it is entered with the iterator \<open>it\<close> and the
  nodes collected so far.\<close>

definition collected ::
  "heap \<Rightarrow> node_ptr set \<Rightarrow> NodeIterator \<Rightarrow> node_ptr list \<Rightarrow> node_ptr list \<Rightarrow> bool" where
  "collected h A it nodes ns \<longleftrightarrow>
     distinct ns \<and> parentsBefore h ns \<and> set (stack it) \<subseteq> set ns \<and>
     set (seen it nodes) \<subseteq> set ns \<and> set ns \<subseteq> A \<and>
     (visitFullModel it \<longrightarrow> dependentClosed h (set ns))"

section \<open>Restored entries\<close>

text \<open>The entries \<open>SetObjectState\<close> writes into the map for \<open>description\<close>, in the order
  it writes them.\<close>

definition written ::
  "('d \<Rightarrow> heap \<Rightarrow> node_ptr list \<times> heap) \<Rightarrow> (node_ptr \<Rightarrow> heap \<Rightarrow> heap) \<Rightarrow>
     'd \<Rightarrow> heap \<Rightarrow> (NodeId \<times> node_ptr) list" where
  "written decode reg description h =
     (let (nodes, h1) = decode description h
      in insertions (onStore reg) nodes (h1, ModelSerializationContext_ctor))"

text \<open>The entries \<open>Deserialize\<close> writes into the map, in the order it writes them.\<close>

definition restored ::
  "('d \<Rightarrow> world \<Rightarrow> node_ptr list \<times> world) \<Rightarrow> (node_ptr \<Rightarrow> world \<Rightarrow> world) \<Rightarrow>
     'd \<Rightarrow> heap \<Rightarrow> (NodeId \<times> node_ptr) list" where
  "restored decode reg description h =
     (let (nodes, w) = decode description (h, ModelSerializationContext_ctor)
      in insertions reg nodes w)"

section \<open>Describing and restoring a container\<close>

text \<open>Modelled from the spec: the description of one node, which the node's own
  description logic (outside Model.cpp) produces: the node's id and, for every input port,
  the ids of the parents on that port, the cross-reference tokens of the serialized form.\<close>

record NodeEntry =
  entryId :: NodeId
  entryParentIds :: "NodeId list list"

definition describeNode :: "heap \<Rightarrow> node_ptr \<Rightarrow> NodeEntry" where
  "describeNode h n =
     \<lparr>entryId = GetId (h ! n),
      entryParentIds = map (map (\<lambda>p. GetId (h ! p))) (GetInputPorts (h ! n))\<rparr>"

text \<open>\<open>Model::GetDescription\<close>: the nodes the whole-graph iterator emits, written to the
  property \<open>nodes\<close> of the description.\<close>

definition GetDescription :: "Model \<Rightarrow> heap \<Rightarrow> NodeEntry list option" where
  "GetDescription m h =
     Option.bind (visitNodes m h []) (\<lambda>nodes. Some (map (describeNode h) nodes))"

text \<open>Modelled from the spec: reading the property \<open>nodes\<close> back (the node types'
  reconstruction, outside Model.cpp). Model.cpp hands no context to the read, so the
  remapping context is one the read creates for itself and discards at its end. In a first
  pass, for each entry a new node object is constructed at a fresh address, under the id
  of the entry, holding the old-id references it was encoded with and no links yet, and
  is registered in the remapping context under that id. In a second pass, when every node
  is registered, the old-id references of each node are resolved through the context into
  its parent links; a reference the context does not resolve gives no link.\<close>

definition freshNode :: "NodeEntry \<Rightarrow> Node" where
  "freshNode e =
     \<lparr>GetId = entryId e, GetInputPorts = [], GetDependentNodes = [],
      storedParentIds = entryParentIds e\<rparr>"

fun constructNodes :: "NodeEntry list \<Rightarrow> world \<Rightarrow> node_ptr list \<times> world" where
  "constructNodes [] w = ([], w)"
| "constructNodes (e # es) w =
     (let node = length (fst w);
          h' = fst w @ [freshNode e];
          ctx' = MapNode (snd w) (entryId e) (Some node);
          (nodes, w') = constructNodes es (h', ctx')
      in (node # nodes, w'))"

fun resolveIds ::
  "NodeId list \<Rightarrow> ModelSerializationContext \<Rightarrow> node_ptr list \<times> ModelSerializationContext" where
  "resolveIds [] ctx = ([], ctx)"
| "resolveIds (i # ids) ctx =
     (let (r, ctx1) = GetNodeFromId ctx i;
          (ps, ctx2) = resolveIds ids ctx1
      in (case r of None \<Rightarrow> (ps, ctx2) | Some p \<Rightarrow> (p # ps, ctx2)))"

fun resolvePorts ::
  "NodeId list list \<Rightarrow> ModelSerializationContext \<Rightarrow>
     node_ptr list list \<times> ModelSerializationContext" where
  "resolvePorts [] ctx = ([], ctx)"
| "resolvePorts (port # ports) ctx =
     (let (ps, ctx1) = resolveIds port ctx;
          (pss, ctx2) = resolvePorts ports ctx1
      in (ps # pss, ctx2))"

definition resolveParents :: "node_ptr \<Rightarrow> world \<Rightarrow> world" where
  "resolveParents node w =
     (let (ports, ctx') = resolvePorts (storedParentIds (fst w ! node)) (snd w)
      in ((fst w)[node := (fst w ! node)\<lparr>GetInputPorts := ports\<rparr>], ctx'))"

definition readNodes :: "NodeEntry list \<Rightarrow> heap \<Rightarrow> node_ptr list \<times> heap" where
  "readNodes es h =
     (let (nodes, w) = constructNodes es (h, ModelSerializationContext_ctor);
          w' = fold resolveParents nodes w
      in (nodes, fst w'))"

text \<open>Modelled from the spec: \<open>Node::RegisterDependencies\<close> (outside Model.cpp), which
  Model.cpp calls without a context: the node updates the dependent bookkeeping of its
  parents, adding itself to the dependents of the parent of every link on every input
  port.\<close>

definition addDependent :: "node_ptr \<Rightarrow> node_ptr \<Rightarrow> heap \<Rightarrow> heap" where
  "addDependent node parent h =
     h[parent := (h ! parent)\<lparr>GetDependentNodes := GetDependentNodes (h ! parent) @ [node]\<rparr>]"

definition RegisterDependencies :: "node_ptr \<Rightarrow> heap \<Rightarrow> heap" where
  "RegisterDependencies node h =
     fold (addDependent node) (concat (GetInputPorts (h ! node))) h"





section \<open>Example graphs\<close>

text \<open>A node as client code builds it: nothing is stored for a later restore.\<close>

definition mkNode :: "NodeId \<Rightarrow> node_ptr list list \<Rightarrow> node_ptr list \<Rightarrow> Node" where
  "mkNode i ports deps =
     \<lparr>GetId = i, GetInputPorts = ports, GetDependentNodes = deps, storedParentIds = []\<rparr>"

text \<open>The diamond of the spec: A (no inputs), B and C (input from A), D (inputs from B
  and C), at the addresses 0 to 3.\<close>

definition diamondHeap :: heap where
  "diamondHeap =
     [mkNode 10 [] [1, 2], mkNode 11 [[0]] [3], mkNode 12 [[0]] [3], mkNode 13 [[1], [2]] []]"

definition diamondModel :: Model where
  "diamondModel = \<lparr>idToNodeMap = [(11, 1), (10, 0), (13, 3), (12, 2)]\<rparr>"

text \<open>A node without inputs, and two nodes that feed each other.\<close>

definition cycleHeap :: heap where
  "cycleHeap = [mkNode 20 [] [], mkNode 21 [[2]] [2], mkNode 22 [[1]] [1]]"

definition cycleModel :: Model where
  "cycleModel = \<lparr>idToNodeMap = [(20, 0), (21, 1), (22, 2)]\<rparr>"

text \<open>A node whose only input port has two parents.\<close>

definition joinHeap :: heap where
  "joinHeap = [mkNode 30 [] [2], mkNode 31 [] [2], mkNode 32 [[0, 1]] []]"

definition joinIterator :: NodeIterator where
  "joinIterator = \<lparr>stack = [2], visitedNodes = {}, currentNode = None, visitFullModel = False\<rparr>"

text \<open>A container of two nodes, and a third node that carries the id of the first.\<close>

definition mergeHeap :: heap where
  "mergeHeap = [mkNode 40 [] [], mkNode 41 [] [], mkNode 40 [] []]"

definition mergeModel :: Model where
  "mergeModel = \<lparr>idToNodeMap = [(40, 0), (41, 1)]\<rparr>"

text \<open>A decoder that finds the node objects already built, and a registration that has
  nothing to link, for \<open>Deserialize\<close> and for \<open>SetObjectState\<close>.\<close>

definition decodeBuilt :: "node_ptr list \<Rightarrow> world \<Rightarrow> node_ptr list \<times> world" where
  "decodeBuilt description w = (description, w)"

definition registerNothing :: "node_ptr \<Rightarrow> world \<Rightarrow> world" where
  "registerNothing node w = w"

definition readBuilt :: "node_ptr list \<Rightarrow> heap \<Rightarrow> node_ptr list \<times> heap" where
  "readBuilt description h = (description, h)"

definition linkNothing :: "node_ptr \<Rightarrow> heap \<Rightarrow> heap" where
  "linkNothing node h = h"



text \<open>A node with two dependents, the second of which feeds the first: A at the address
  0, B (input from A) at 1, C (inputs from A and B) at 2, and C registered with A before
  B was.\<close>

definition chordHeap :: heap where
  "chordHeap = [mkNode 60 [] [2, 1], mkNode 61 [[0]] [2], mkNode 62 [[0], [1]] []]"

definition chordModel :: Model where
  "chordModel = \<lparr>idToNodeMap = [(60, 0), (61, 1), (62, 2)]\<rparr>"

text \<open>A node that feeds two nodes that feed each other.\<close>

definition fedCycleHeap :: heap where
  "fedCycleHeap = [mkNode 70 [] [1], mkNode 71 [[0], [2]] [2], mkNode 72 [[1]] [1]]"

definition fedCycleModel :: Model where
  "fedCycleModel = \<lparr>idToNodeMap = [(70, 0), (71, 1), (72, 2)]\<rparr>"

section \<open>Evaluation\<close>

declare Next_loop.simps [code] findOutputNode.simps [code] collectNodes.simps [code]

section \<open>The loop of Next\<close>

lemma fold_snoc: "fold (\<lambda>x s. s @ [x]) xs s = s @ xs"
  by (induction xs arbitrary: s) auto

lemma fold_fold_snoc: "fold (\<lambda>xs s. fold (\<lambda>x s. s @ [x]) xs s) xss s = s @ concat xss"
  by (induction xss arbitrary: s) (auto simp: fold_snoc)

lemma pushParents_eq: "pushParents h node stk = stk @ concat (rev (GetInputPorts (h ! node)))"
  by (simp add: pushParents_def fold_fold_snoc)

lemma pushDependents_eq: "pushDependents h node stk = stk @ rev (GetDependentNodes (h ! node))"
  by (simp add: pushDependents_def fold_snoc)

lemma set_pushParents: "set (pushParents h node stk) = set stk \<union> set (parents h node)"
  by (auto simp: pushParents_eq parents_def)

lemma fold_conj: "fold (\<lambda>x cv. cv \<and> x \<in> A) xs b \<longleftrightarrow> b \<and> set xs \<subseteq> A"
  by (induction xs arbitrary: b) auto

lemma fold_fold_conj:
  "fold (\<lambda>xs cv. fold (\<lambda>x cv. cv \<and> x \<in> A) xs cv) xss b \<longleftrightarrow> b \<and> set (concat xss) \<subseteq> A"
  by (induction xss arbitrary: b) (auto simp: fold_conj)

lemma canVisit_iff: "canVisit h visited node \<longleftrightarrow> set (parents h node) \<subseteq> visited"
  by (simp add: canVisit_def parents_def fold_fold_conj)

lemma Next_body_cases:
  obtains (popped) "last (stack it) \<in> visitedNodes it"
      "Next_body h it = (Continue, it\<lparr>stack := butlast (stack it)\<rparr>)"
  | (emitted) "last (stack it) \<notin> visitedNodes it"
      "set (parents h (last (stack it))) \<subseteq> visitedNodes it"
      "Next_body h it =
         (Break, it\<lparr>stack := butlast (stack it) @
                       (if visitFullModel it then rev (GetDependentNodes (h ! last (stack it))) else []),
                     visitedNodes := insert (last (stack it)) (visitedNodes it),
                     currentNode := Some (last (stack it))\<rparr>)"
  | (pushed) "last (stack it) \<notin> visitedNodes it"
      "\<not> set (parents h (last (stack it))) \<subseteq> visitedNodes it"
      "Next_body h it =
         (Continue, it\<lparr>stack := stack it @ concat (rev (GetInputPorts (h ! last (stack it))))\<rparr>)"
proof (cases "last (stack it) \<in> visitedNodes it")
  case True
  then show ?thesis using popped by (simp add: Next_body_def)
next
  case nv: False
  show ?thesis
  proof (cases "set (parents h (last (stack it))) \<subseteq> visitedNodes it")
    case True
    with nv show ?thesis using emitted
      by (simp add: Next_body_def canVisit_iff pushDependents_eq Let_def)
  next
    case False
    with nv show ?thesis using pushed
      by (simp add: Next_body_def canVisit_iff pushParents_eq)
  qed
qed

text \<open>Partial correctness of the loop: an invariant of the passes that continue holds in
  the state from which the loop leaves.\<close>

lemma Next_loop_rule:
  assumes "Next_loop h it = Some it'" and "P it"
    and step: "\<And>a b. P a \<Longrightarrow> stack a \<noteq> [] \<Longrightarrow> Next_body h a = (Continue, b) \<Longrightarrow> P b"
  shows "\<exists>a. P a \<and> (if stack a = [] then it' = a else Next_body h a = (Break, it'))"
proof -
  have "(\<forall>a b. P a \<longrightarrow> stack a \<noteq> [] \<longrightarrow> Next_body h a = (Continue, b) \<longrightarrow> P b) \<longrightarrow> P it \<longrightarrow>
          (\<exists>a. P a \<and> (if stack a = [] then it' = a else Next_body h a = (Break, it')))"
  proof (rule Next_loop.raw_induct[where P = "\<lambda>h it it'.
          (\<forall>a b. P a \<longrightarrow> stack a \<noteq> [] \<longrightarrow> Next_body h a = (Continue, b) \<longrightarrow> P b) \<longrightarrow> P it \<longrightarrow>
          (\<exists>a. P a \<and> (if stack a = [] then it' = a else Next_body h a = (Break, it')))",
          OF _ assms(1)])
    fix f h0 x y
    assume IH: "\<And>h it y. f h it = Some y \<Longrightarrow>
          (\<forall>a b. P a \<longrightarrow> stack a \<noteq> [] \<longrightarrow> Next_body h a = (Continue, b) \<longrightarrow> P b) \<longrightarrow> P it \<longrightarrow>
          (\<exists>a. P a \<and> (if stack a = [] then y = a else Next_body h a = (Break, y)))"
      and eq: "(if stack x = [] then Some x
           else case Next_body h0 x of (Continue, it') \<Rightarrow> f h0 it' | (Break, it') \<Rightarrow> Some it') = Some y"
    show "(\<forall>a b. P a \<longrightarrow> stack a \<noteq> [] \<longrightarrow> Next_body h0 a = (Continue, b) \<longrightarrow> P b) \<longrightarrow> P x \<longrightarrow>
          (\<exists>a. P a \<and> (if stack a = [] then y = a else Next_body h0 a = (Break, y)))"
    proof (intro impI)
      assume st: "\<forall>a b. P a \<longrightarrow> stack a \<noteq> [] \<longrightarrow> Next_body h0 a = (Continue, b) \<longrightarrow> P b"
        and px: "P x"
      show "\<exists>a. P a \<and> (if stack a = [] then y = a else Next_body h0 a = (Break, y))"
      proof (cases "stack x = []")
        case True
        with eq px show ?thesis by auto
      next
        case ne: False
        obtain c b where nb: "Next_body h0 x = (c, b)" by (cases "Next_body h0 x")
        show ?thesis
        proof (cases c)
          case Continue
          with eq ne nb have "f h0 b = Some y" by simp
          moreover from st px ne nb Continue have "P b" by blast
          ultimately show ?thesis using IH st by blast
        next
          case Break
          with eq ne nb have "y = b" by simp
          with ne nb Break px show ?thesis by auto
        qed
      qed
    qed
  qed
  with assms show ?thesis by blast
qed

text \<open>Entries above the topmost unvisited node are popped.\<close>

lemma Next_loop_pop:
  "set suf \<subseteq> visitedNodes it \<Longrightarrow> stack it = pre @ suf \<Longrightarrow>
     Next_loop h it = Next_loop h (it\<lparr>stack := pre\<rparr>)"
proof (induction suf arbitrary: it rule: rev_induct)
  case Nil
  then have "it\<lparr>stack := pre\<rparr> = it" by simp
  then show ?case by simp
next
  case (snoc x xs)
  have st: "stack it = (pre @ xs) @ [x]" using snoc.prems by simp
  have xv: "x \<in> visitedNodes it" using snoc.prems by simp
  have la: "last (stack it) = x" using st by simp
  have bl: "butlast (stack it) = pre @ xs" unfolding st by (rule butlast_snoc)
  have ne: "stack it \<noteq> []" using st by simp
  have nb: "Next_body h it = (Continue, it\<lparr>stack := pre @ xs\<rparr>)"
    using la xv bl by (simp add: Next_body_def)
  have "Next_loop h it = Next_loop h (it\<lparr>stack := pre @ xs\<rparr>)"
    using ne nb by (subst Next_loop.simps) simp
  also have "\<dots> = Next_loop h (it\<lparr>stack := pre @ xs, stack := pre\<rparr>)"
    using snoc.prems by (intro snoc.IH) auto
  finally show ?case by simp
qed

lemma Next_loop_unvisited:
  assumes wf: "wf (parentRel h A)"
    and closed: "\<forall>a \<in> A. set (parents h a) \<subseteq> A"
  shows "n \<in> A \<Longrightarrow> n \<notin> visitedNodes it \<Longrightarrow> stack it = pre @ [n] \<Longrightarrow>
           \<exists>it'. Next_loop h it = Some it'"
  using wf
proof (induction n arbitrary: it pre rule: wf_induct_rule)
  case (less n)
  have ne: "stack it \<noteq> []" and la: "last (stack it) = n" using less.prems by auto
  show ?case
  proof (cases rule: Next_body_cases[of it h])
    case popped
    with la less.prems show ?thesis by simp
  next
    case emitted
    then show ?thesis using ne by (subst Next_loop.simps) simp
  next
    case pushed
    let ?ps = "concat (rev (GetInputPorts (h ! n)))"
    have sps: "set ?ps = set (parents h n)" by (auto simp: parents_def)
    from pushed(2) la sps have "\<exists>p \<in> set ?ps. p \<notin> visitedNodes it" by auto
    from split_list_last_prop[OF this]
    obtain ys p zs where sp: "?ps = ys @ p # zs" "p \<notin> visitedNodes it"
      "\<forall>z \<in> set zs. z \<in> visitedNodes it" by auto
    have pn: "p \<in> set (parents h n)" using sp(1) sps by (metis in_set_conv_decomp)
    then have rel: "(p, n) \<in> parentRel h A" and pA: "p \<in> A"
      using less.prems(1) closed by (auto simp: parentRel_def)
    let ?it1 = "it\<lparr>stack := stack it @ ?ps\<rparr>"
    have "Next_loop h it = Next_loop h ?it1"
      using ne pushed(3) la by (subst Next_loop.simps) simp
    also have "\<dots> = Next_loop h (?it1\<lparr>stack := (pre @ n # ys) @ [p]\<rparr>)"
      by (rule Next_loop_pop[where suf = zs]) (use sp less.prems in auto)
    finally have eq: "Next_loop h it = Next_loop h (?it1\<lparr>stack := (pre @ n # ys) @ [p]\<rparr>)" .
    have "\<exists>it'. Next_loop h (?it1\<lparr>stack := (pre @ n # ys) @ [p]\<rparr>) = Some it'"
      by (rule less.IH[OF rel pA]) (use sp in auto)
    with eq show ?thesis by simp
  qed
qed

lemma Next_loop_terminates:
  assumes wf: "wf (parentRel h A)"
    and closed: "\<forall>a \<in> A. set (parents h a) \<subseteq> A"
    and stk: "set (stack it) \<subseteq> A"
  shows "\<exists>it'. Next_loop h it = Some it'"
proof (cases "\<exists>x \<in> set (stack it). x \<notin> visitedNodes it")
  case True
  from split_list_last_prop[OF this]
  obtain ys n zs where sp: "stack it = ys @ n # zs" "n \<notin> visitedNodes it"
    "\<forall>z \<in> set zs. z \<in> visitedNodes it" by auto
  have "Next_loop h it = Next_loop h (it\<lparr>stack := ys @ [n]\<rparr>)"
    by (rule Next_loop_pop[where suf = zs]) (use sp in auto)
  moreover have "\<exists>it'. Next_loop h (it\<lparr>stack := ys @ [n]\<rparr>) = Some it'"
    by (rule Next_loop_unvisited[OF wf closed, where n = n]) (use sp stk in auto)
  ultimately show ?thesis by simp
next
  case False
  then have "Next_loop h it = Next_loop h (it\<lparr>stack := []\<rparr>)"
    by (intro Next_loop_pop[where suf = "stack it"]) auto
  then show ?thesis by (simp add: Next_loop.simps)
qed

lemma NextInv_init: "NextInv h A it (it\<lparr>currentNode := None\<rparr>)"
  by (simp add: NextInv_def)

lemma last_in_set': "s \<noteq> [] \<Longrightarrow> last s \<in> set s"
  by simp

lemma set_butlast_last: "s \<noteq> [] \<Longrightarrow> set s = insert (last s) (set (butlast s))"
  by (metis append_butlast_last_id list.simps(15) rotate1.simps(2) set_rotate1)

lemma NextInv_step:
  assumes "NextInv h A it a" "stack a \<noteq> []" "Next_body h a = (Continue, b)"
  shows "NextInv h A it b"
proof (cases rule: Next_body_cases[of a h])
  case popped
  with assms(3) have b: "b = a\<lparr>stack := butlast (stack a)\<rparr>" by simp
  have "set (stack a) = insert (last (stack a)) (set (butlast (stack a)))"
    using assms(2) by (rule set_butlast_last)
  with assms(1) popped(1) show ?thesis
    unfolding NextInv_def b by auto
next
  case emitted
  with assms(3) show ?thesis by simp
next
  case pushed
  with assms(3) have b: "b = a\<lparr>stack := stack a @ concat (rev (GetInputPorts (h ! last (stack a))))\<rparr>"
    by simp
  have la: "last (stack a) \<in> set (stack a)" using assms(2) by simp
  have "set (concat (rev (GetInputPorts (h ! last (stack a))))) = set (parents h (last (stack a)))"
    by (auto simp: parents_def)
  with assms(1) la show ?thesis
    unfolding NextInv_def b parentClosed_def by auto
qed

lemma Next_final:
  assumes "Next h it = Some it'"
  obtains (exhausted) a where "NextInv h A it a" "stack a = []" "it' = a"
  | (emitted) a where "NextInv h A it a" "stack a \<noteq> []"
      "last (stack a) \<notin> visitedNodes a"
      "set (parents h (last (stack a))) \<subseteq> visitedNodes a"
      "it' = a\<lparr>stack := butlast (stack a) @
                       (if visitFullModel a then rev (GetDependentNodes (h ! last (stack a))) else []),
                     visitedNodes := insert (last (stack a)) (visitedNodes a),
                     currentNode := Some (last (stack a))\<rparr>"
proof -
  from assms have nl: "Next_loop h (it\<lparr>currentNode := None\<rparr>) = Some it'"
    by (simp add: Next_def)
  have "\<exists>a. NextInv h A it a \<and>
          (if stack a = [] then it' = a else Next_body h a = (Break, it'))"
    by (rule Next_loop_rule[where P = "NextInv h A it", OF nl NextInv_init NextInv_step])
  then obtain a where a: "NextInv h A it a"
    and a2: "if stack a = [] then it' = a else Next_body h a = (Break, it')"
    by (elim exE conjE)
  show thesis
  proof (cases "stack a = []")
    case True
    with a a2 exhausted show ?thesis by simp
  next
    case False
    with a2 have br: "Next_body h a = (Break, it')" by simp
    show ?thesis
    proof (cases rule: Next_body_cases[of a h])
      case popped
      with br show ?thesis by simp
    next
      case emitted
      from br emitted(3) have "it' = a\<lparr>stack := butlast (stack a) @
                       (if visitFullModel a then rev (GetDependentNodes (h ! last (stack a))) else []),
                     visitedNodes := insert (last (stack a)) (visitedNodes a),
                     currentNode := Some (last (stack a))\<rparr>" by simp
      then show ?thesis by (rule that(2)[OF a False emitted(1) emitted(2)])
    next
      case pushed
      with br show ?thesis by simp
    qed
  qed
qed

lemma Next_visitFullModel:
  assumes "Next h it = Some it'"
  shows "visitFullModel it' = visitFullModel it"
  using assms by (cases rule: Next_final[where A = A]) (auto simp: NextInv_def)

lemma Next_exhausted:
  assumes "Next h it = Some it'" "currentNode it' = None"
  shows "stack it' = []" "visitedNodes it' = visitedNodes it" "set (stack it) \<subseteq> visitedNodes it"
  using assms by (cases rule: Next_final[where A = A]; auto simp: NextInv_def)+

lemma Next_emitted:
  assumes "Next h it = Some it'" "currentNode it' = Some q"
  shows "q \<notin> visitedNodes it" "set (parents h q) \<subseteq> visitedNodes it"
    "visitedNodes it' = insert q (visitedNodes it)"
    "set (stack it) \<subseteq> set (stack it') \<union> visitedNodes it'"
    "visitFullModel it \<Longrightarrow> set (GetDependentNodes (h ! q)) \<subseteq> set (stack it')"
    "set (stack it) \<subseteq> A \<Longrightarrow> parentClosed h A \<Longrightarrow>
       q \<in> A \<and> set (stack it') \<subseteq> A \<union> (if visitFullModel it then set (GetDependentNodes (h ! q)) else {})"
proof -
  from assms(1) show "q \<notin> visitedNodes it"
    using assms(2) by (cases rule: Next_final[where A = A]) (auto simp: NextInv_def)
  from assms(1) show "set (parents h q) \<subseteq> visitedNodes it"
    using assms(2) by (cases rule: Next_final[where A = A]) (auto simp: NextInv_def)
  from assms(1) show "visitedNodes it' = insert q (visitedNodes it)"
    using assms(2) by (cases rule: Next_final[where A = A]) (auto simp: NextInv_def)
  from assms(1) show "set (stack it) \<subseteq> set (stack it') \<union> visitedNodes it'"
  proof (cases rule: Next_final[where A = A])
    case (exhausted a)
    with assms(2) show ?thesis by (auto simp: NextInv_def)
  next
    case (emitted a)
    have "set (stack a) = insert (last (stack a)) (set (butlast (stack a)))"
      using emitted(2) by (rule set_butlast_last)
    with emitted show ?thesis by (auto simp: NextInv_def)
  qed
  from assms(1) show "visitFullModel it \<Longrightarrow> set (GetDependentNodes (h ! q)) \<subseteq> set (stack it')"
    using assms(2) by (cases rule: Next_final[where A = A]) (auto simp: NextInv_def)
  from assms(1) show "set (stack it) \<subseteq> A \<Longrightarrow> parentClosed h A \<Longrightarrow>
       q \<in> A \<and> set (stack it') \<subseteq> A \<union> (if visitFullModel it then set (GetDependentNodes (h ! q)) else {})"
  proof (cases rule: Next_final[where A = A])
    case (exhausted a)
    with assms(2) show ?thesis by (auto simp: NextInv_def)
  next
    case (emitted a)
    assume A: "set (stack it) \<subseteq> A" "parentClosed h A"
    with emitted(1) have sa: "set (stack a) \<subseteq> A" by (auto simp: NextInv_def)
    have "set (stack a) = insert (last (stack a)) (set (butlast (stack a)))"
      using emitted(2) by (rule set_butlast_last)
    with sa have "last (stack a) \<in> A" "set (butlast (stack a)) \<subseteq> A" by auto
    with emitted assms(2) show ?thesis by (auto simp: NextInv_def)
  qed
qed

section \<open>The consumer loop\<close>

lemma parentsBefore_snoc:
  "parentsBefore h (l @ [q]) \<longleftrightarrow> parentsBefore h l \<and> set (parents h q) \<subseteq> set l"
proof -
  have "(\<forall>i < Suc (length l). set (parents h ((l @ [q]) ! i)) \<subseteq> set (take i (l @ [q]))) \<longleftrightarrow>
        (\<forall>i < length l. set (parents h ((l @ [q]) ! i)) \<subseteq> set (take i (l @ [q]))) \<and>
        set (parents h ((l @ [q]) ! length l)) \<subseteq> set (take (length l) (l @ [q]))"
    by (auto simp: less_Suc_eq)
  then show ?thesis
    by (simp add: parentsBefore_def nth_append)
qed

lemma seen_None: "currentNode it = None \<Longrightarrow> seen it nodes = nodes"
  by (simp add: seen_def)

lemma seen_Some: "currentNode it = Some q \<Longrightarrow> seen it nodes = nodes @ [q]"
  by (simp add: seen_def)

lemma Next_iterInv:
  assumes inv: "iterInv h A it nodes"
    and pc: "parentClosed h A"
    and dc: "visitFullModel it \<Longrightarrow> dependentClosed h A"
    and nx: "Next h it = Some it'"
  shows "iterInv h A it' (seen it nodes)"
proof (cases "currentNode it'")
  case None
  note ex = Next_exhausted[OF nx None]
  have full: "visitFullModel it' = visitFullModel it" by (rule Next_visitFullModel[OF nx])
  have s: "seen it' (seen it nodes) = seen it nodes" using None by (rule seen_None)
  from inv have v: "visitedNodes it = set (seen it nodes)" by (simp add: iterInv_def)
  have dep: "\<forall>v \<in> set (seen it nodes).
      set (GetDependentNodes (h ! v)) \<subseteq> set (seen it nodes) \<union> set []"
    if f: "visitFullModel it"
  proof
    fix w assume "w \<in> set (seen it nodes)"
    with inv f have "set (GetDependentNodes (h ! w)) \<subseteq> set (seen it nodes) \<union> set (stack it)"
      unfolding iterInv_def by blast
    with ex(3) v show "set (GetDependentNodes (h ! w)) \<subseteq> set (seen it nodes) \<union> set []"
      by auto
  qed
  show ?thesis
    unfolding iterInv_def s ex(1) ex(2) full
    using inv dep unfolding iterInv_def by simp
next
  case (Some q)
  note em = Next_emitted[OF nx Some]
  have full: "visitFullModel it' = visitFullModel it" by (rule Next_visitFullModel[OF nx])
  have s: "seen it' (seen it nodes) = seen it nodes @ [q]" using Some by (rule seen_Some)
  let ?l = "seen it nodes"
  from inv have v: "visitedNodes it = set ?l" and d: "distinct ?l" and pb: "parentsBefore h ?l"
    and st: "set (stack it) \<subseteq> A" and lA: "set ?l \<subseteq> A"
    and dep: "visitFullModel it \<Longrightarrow>
        \<forall>v \<in> set ?l. set (GetDependentNodes (h ! v)) \<subseteq> set ?l \<union> set (stack it)"
    unfolding iterInv_def by auto
  from em(6)[OF st pc] have qA: "q \<in> A"
    and st': "set (stack it') \<subseteq> A \<union> (if visitFullModel it then set (GetDependentNodes (h ! q)) else {})"
    by auto
  have 1: "visitedNodes it' = set (?l @ [q])" using em(3) v by simp
  have 2: "distinct (?l @ [q])" using d em(1) v by simp
  have 3: "parentsBefore h (?l @ [q])" using pb em(2) v by (simp add: parentsBefore_snoc)
  have 4: "set (stack it') \<subseteq> A"
  proof (cases "visitFullModel it")
    case True
    from dc[OF True] qA have "set (GetDependentNodes (h ! q)) \<subseteq> A"
      by (auto simp: dependentClosed_def)
    with st' True show ?thesis by auto
  next
    case False
    with st' show ?thesis by simp
  qed
  have 5: "set (?l @ [q]) \<subseteq> A" using lA qA by simp
  have 6: "\<forall>v \<in> set (?l @ [q]).
             set (GetDependentNodes (h ! v)) \<subseteq> set (?l @ [q]) \<union> set (stack it')"
    if f: "visitFullModel it"
  proof
    fix v assume "v \<in> set (?l @ [q])"
    then consider "v = q" | "v \<in> set ?l" by auto
    then show "set (GetDependentNodes (h ! v)) \<subseteq> set (?l @ [q]) \<union> set (stack it')"
    proof cases
      case 1
      with em(5)[OF f] show ?thesis by auto
    next
      case 2
      with dep[OF f] have "set (GetDependentNodes (h ! v)) \<subseteq> set ?l \<union> set (stack it)" by blast
      moreover have "set (stack it) \<subseteq> set (stack it') \<union> set (?l @ [q])"
        using em(4) 1 by simp
      ultimately show ?thesis by auto
    qed
  qed
  show ?thesis
    unfolding iterInv_def s full using 1 2 3 4 5 6 by blast
qed

lemma collectNodes_exhausted:
  assumes inv: "iterInv h A it nodes" and cur: "currentNode it = None" and st: "stack it = []"
  shows "collectNodes h it nodes = Some nodes \<and> collected h A it nodes nodes"
proof -
  have "collectNodes h it nodes = Some nodes"
    using cur by (subst collectNodes.simps) (simp add: IsValid_def)
  moreover have "collected h A it nodes nodes"
    using inv unfolding collected_def iterInv_def seen_None[OF cur] st dependentClosed_def
    by auto
  ultimately show ?thesis by simp
qed

lemma collectNodes_total:
  assumes fin: "finite A" and wf: "wf (parentRel h A)" and pc: "parentClosed h A"
  shows "iterInv h A it nodes \<Longrightarrow> (currentNode it = None \<longrightarrow> stack it = []) \<Longrightarrow>
         (visitFullModel it \<longrightarrow> dependentClosed h A) \<Longrightarrow>
         \<exists>ns. collectNodes h it nodes = Some ns \<and> collected h A it nodes ns"
proof (induction "card (A - visitedNodes it)" arbitrary: it nodes rule: less_induct)
  case less
  show ?case
  proof (cases "currentNode it")
    case None
    with less.prems collectNodes_exhausted[of h A it nodes] show ?thesis by blast
  next
    case (Some c)
    from less.prems(1) have stA: "set (stack it) \<subseteq> A" by (simp add: iterInv_def)
    from pc have pc': "\<forall>a \<in> A. set (parents h a) \<subseteq> A" by (simp add: parentClosed_def)
    have "\<exists>it'. Next_loop h (it\<lparr>currentNode := None\<rparr>) = Some it'"
      by (rule Next_loop_terminates[OF wf pc']) (use stA in simp)
    then obtain it' where nx: "Next h it = Some it'" by (auto simp: Next_def)
    have full: "visitFullModel it' = visitFullModel it" by (rule Next_visitFullModel[OF nx])
    have inv': "iterInv h A it' (seen it nodes)"
      using less.prems(1) pc _ nx by (rule Next_iterInv) (use less.prems(3) in simp)
    have unf: "collectNodes h it nodes = collectNodes h it' (seen it nodes)"
      using Some nx by (subst collectNodes.simps) (simp add: IsValid_def Get_def seen_def)
    have "\<exists>ns. collectNodes h it' (seen it nodes) = Some ns \<and> collected h A it' (seen it nodes) ns"
    proof (cases "currentNode it'")
      case None
      from Next_exhausted(1)[OF nx None] inv' None collectNodes_exhausted[of h A it' "seen it nodes"]
      show ?thesis by blast
    next
      case (Some q)
      note em = Next_emitted[OF nx Some]
      from em(6)[OF stA pc] have qA: "q \<in> A" by simp
      have "A - visitedNodes it' \<subset> A - visitedNodes it"
        using em(1) em(3) qA by auto
      then have "card (A - visitedNodes it') < card (A - visitedNodes it)"
        using fin by (intro psubset_card_mono) auto
      from less.hyps[OF this inv'] Some full less.prems(3) show ?thesis by simp
    qed
    then obtain ns where ns: "collectNodes h it' (seen it nodes) = Some ns"
      and col: "collected h A it' (seen it nodes) ns" by blast
    have sub: "set (stack it) \<subseteq> set (stack it') \<union> set (seen it' (seen it nodes))"
    proof (cases "currentNode it'")
      case None
      from Next_exhausted[OF nx None] less.prems(1) show ?thesis
        by (auto simp: iterInv_def seen_None[OF None])
    next
      case (Some q)
      from Next_emitted(4)[OF nx Some] inv' show ?thesis by (simp add: iterInv_def)
    qed
    have sub2: "set (seen it nodes) \<subseteq> set (seen it' (seen it nodes))"
      by (auto simp: seen_def)
    have "collected h A it nodes ns"
      using col sub sub2 full unfolding collected_def by auto
    with unf ns show ?thesis by simp
  qed
qed

section \<open>Traversals of a well-formed container\<close>

lemma finite_parentRel: "finite V \<Longrightarrow> finite (parentRel h V)"
proof -
  assume "finite V"
  then have "finite (\<Union>n \<in> V. set (parents h n) \<times> {n})" by simp
  moreover have "parentRel h V \<subseteq> (\<Union>n \<in> V. set (parents h n) \<times> {n})"
    by (auto simp: parentRel_def)
  ultimately show ?thesis by (rule rev_finite_subset)
qed

lemma finite_modelNodes: "finite (modelNodes m)"
  by (simp add: modelNodes_def)

lemma parentRel_mono: "A \<subseteq> V \<Longrightarrow> parentRel h A \<subseteq> parentRel h V"
  by (auto simp: parentRel_def)

lemma wf_parentRel:
  assumes "acyclicModel m h" "A \<subseteq> modelNodes m"
  shows "wf (parentRel h A)"
proof -
  have "finite (parentRel h (modelNodes m))" by (rule finite_parentRel[OF finite_modelNodes])
  with assms(1) have "wf (parentRel h (modelNodes m))"
    by (simp add: acyclicModel_def wf_iff_acyclic_if_finite)
  then show ?thesis by (rule wf_subset) (rule parentRel_mono[OF assms(2)])
qed

lemma wf_parentRel_converse:
  assumes "acyclicModel m h"
  shows "wf ((parentRel h (modelNodes m))\<inverse>)"
proof -
  have "finite ((parentRel h (modelNodes m))\<inverse>)"
    using finite_parentRel[OF finite_modelNodes] by simp
  moreover have "acyclic ((parentRel h (modelNodes m))\<inverse>)"
    using assms by (simp add: acyclicModel_def)
  ultimately show ?thesis by (simp add: wf_iff_acyclic_if_finite)
qed

lemma wellformed_parentClosed: "wellformed m h \<Longrightarrow> parentClosed h (modelNodes m)"
  by (simp add: wellformed_def parentClosed_def)

lemma wellformed_dependentClosed: "wellformed m h \<Longrightarrow> dependentClosed h (modelNodes m)"
  by (auto simp: wellformed_def dependentClosed_def)

lemma wellformed_dependent:
  "wellformed m h \<Longrightarrow> n \<in> modelNodes m \<Longrightarrow> d \<in> set (GetDependentNodes (h ! n)) \<Longrightarrow>
     (n, d) \<in> parentRel h (modelNodes m)"
  by (auto simp: wellformed_def parentRel_def)

lemma wellformed_child:
  "wellformed m h \<Longrightarrow> (n, d) \<in> parentRel h (modelNodes m) \<Longrightarrow>
     n \<in> modelNodes m \<and> d \<in> modelNodes m \<and> d \<in> set (GetDependentNodes (h ! n))"
  by (auto simp: wellformed_def parentRel_def)

lemma findOutputNode_total:
  assumes wfm: "wellformed m h" and ac: "acyclicModel m h"
  shows "n \<in> modelNodes m \<Longrightarrow> \<exists>s. findOutputNode h n = Some s \<and> s \<in> modelNodes m"
  using wf_parentRel_converse[OF ac]
proof (induction n rule: wf_induct_rule)
  case (less n)
  show ?case
  proof (cases "GetDependentNodes (h ! n)")
    case Nil
    then have "findOutputNode h n = Some n" by (subst findOutputNode.simps) simp
    with less.prems show ?thesis by simp
  next
    case (Cons d ds)
    then have eq: "findOutputNode h n = findOutputNode h d" by (subst findOutputNode.simps) simp
    have "d \<in> set (GetDependentNodes (h ! n))" using Cons by simp
    from wellformed_dependent[OF wfm less.prems this]
    have r: "(n, d) \<in> parentRel h (modelNodes m)" .
    with wellformed_child[OF wfm] have "d \<in> modelNodes m" by blast
    with less.IH[of d] r eq show ?thesis by auto
  qed
qed

lemma iterInv_init:
  "set outs \<subseteq> A \<Longrightarrow>
     iterInv h A \<lparr>stack = outs, visitedNodes = {}, currentNode = None, visitFullModel = f\<rparr> []"
  by (simp add: iterInv_def seen_def parentsBefore_def)

text \<open>One call of \<open>Next\<close> from a state inside a closed, well-founded node set returns, and
  the state it returns is ready for the consumer loop.\<close>

lemma Next_total:
  assumes wf: "wf (parentRel h A)" and pc: "parentClosed h A"
    and dc: "visitFullModel it \<Longrightarrow> dependentClosed h A"
    and inv: "iterInv h A it nodes"
  shows "\<exists>it'. Next h it = Some it' \<and> iterInv h A it' (seen it nodes) \<and>
           (currentNode it' = None \<longrightarrow> stack it' = []) \<and>
           visitFullModel it' = visitFullModel it \<and>
           set (stack it) \<subseteq> set (stack it') \<union> set (seen it' (seen it nodes))"
proof -
  from inv have stA: "set (stack it) \<subseteq> A" by (simp add: iterInv_def)
  from pc have pc': "\<forall>a \<in> A. set (parents h a) \<subseteq> A" by (simp add: parentClosed_def)
  have "\<exists>it'. Next_loop h (it\<lparr>currentNode := None\<rparr>) = Some it'"
    by (rule Next_loop_terminates[OF wf pc']) (use stA in simp)
  then obtain it' where nx: "Next h it = Some it'" by (auto simp: Next_def)
  have inv': "iterInv h A it' (seen it nodes)"
    using inv pc dc nx by (rule Next_iterInv)
  have 1: "currentNode it' = None \<longrightarrow> stack it' = []"
    using Next_exhausted(1)[OF nx] by simp
  have 2: "visitFullModel it' = visitFullModel it" by (rule Next_visitFullModel[OF nx])
  have 3: "set (stack it) \<subseteq> set (stack it') \<union> set (seen it' (seen it nodes))"
  proof (cases "currentNode it'")
    case None
    from Next_exhausted[OF nx None] inv show ?thesis
      by (auto simp: iterInv_def seen_None[OF None])
  next
    case (Some q)
    from Next_emitted(4)[OF nx Some] inv' show ?thesis by (simp add: iterInv_def)
  qed
  show ?thesis by (intro exI[of _ it'] conjI nx inv' 1 2 3)
qed


lemma visitNodes_restricted:
  assumes fin: "finite A" and wf: "wf (parentRel h A)" and pc: "parentClosed h A"
    and outs: "outs \<noteq> []" "set outs \<subseteq> A" and sz: "Size m \<noteq> 0"
  shows "\<exists>ns. visitNodes m h outs = Some ns \<and> distinct ns \<and> parentsBefore h ns \<and>
           set outs \<subseteq> set ns \<and> set ns \<subseteq> A"
proof -
  let ?it1 = "\<lparr>stack = outs, visitedNodes = {}, currentNode = None, visitFullModel = False\<rparr>"
  have inv: "iterInv h A ?it1 []" by (rule iterInv_init[OF outs(2)])
  from Next_total[OF wf pc _ inv]
  obtain it where it: "Next h ?it1 = Some it" "iterInv h A it (seen ?it1 [])"
    "currentNode it = None \<longrightarrow> stack it = []" "visitFullModel it = visitFullModel ?it1"
    "set (stack ?it1) \<subseteq> set (stack it) \<union> set (seen it (seen ?it1 []))"
    by auto
  have s: "seen ?it1 [] = []" by (simp add: seen_def)
  have ctor: "NodeIterator_ctor m h outs = Some it"
    using sz outs(1) it(1) by (simp add: NodeIterator_ctor_def)
  from collectNodes_total[OF fin wf pc, of it "[]"] it(2,3,4) s
  obtain ns where ns: "collectNodes h it [] = Some ns" "collected h A it [] ns" by auto
  have "visitNodes m h outs = Some ns" using ctor ns(1) by (simp add: visitNodes_def)
  moreover have "set outs \<subseteq> set ns"
    using it(5) ns(2) s by (auto simp: collected_def)
  ultimately show ?thesis using ns(2) by (auto simp: collected_def)
qed

lemma visitNodes_full:
  assumes wfm: "wellformed m h" and ac: "acyclicModel m h" and sz: "Size m \<noteq> 0"
  shows "\<exists>ns. visitNodes m h [] = Some ns \<and> distinct ns \<and> parentsBefore h ns \<and>
           set ns \<noteq> {} \<and> set ns \<subseteq> modelNodes m \<and> dependentClosed h (set ns)"
proof -
  let ?A = "modelNodes m"
  have fin: "finite ?A" by (rule finite_modelNodes)
  have wf: "wf (parentRel h ?A)" by (rule wf_parentRel[OF ac]) simp
  have pc: "parentClosed h ?A" by (rule wellformed_parentClosed[OF wfm])
  have dc: "dependentClosed h ?A" by (rule wellformed_dependentClosed[OF wfm])
  from sz have "idToNodeMap m \<noteq> []" by (simp add: Size_def)
  then have "snd (hd (idToNodeMap m)) \<in> ?A" by (simp add: modelNodes_def)
  from findOutputNode_total[OF wfm ac this]
  obtain s where s: "findOutputNode h (snd (hd (idToNodeMap m))) = Some s" "s \<in> ?A" by blast
  let ?it1 = "\<lparr>stack = [s], visitedNodes = {}, currentNode = None, visitFullModel = True\<rparr>"
  have inv: "iterInv h ?A ?it1 []" by (rule iterInv_init) (use s(2) in simp)
  from Next_total[OF wf pc dc inv]
  obtain it where it: "Next h ?it1 = Some it" "iterInv h ?A it (seen ?it1 [])"
    "currentNode it = None \<longrightarrow> stack it = []" "visitFullModel it = visitFullModel ?it1"
    "set (stack ?it1) \<subseteq> set (stack it) \<union> set (seen it (seen ?it1 []))"
    by auto
  have e: "seen ?it1 [] = []" by (simp add: seen_def)
  have ctor: "NodeIterator_ctor m h [] = Some it"
    using sz s(1) it(1) by (simp add: NodeIterator_ctor_def)
  from collectNodes_total[OF fin wf pc, of it "[]"] it(2,3,4) e dc
  obtain ns where ns: "collectNodes h it [] = Some ns" "collected h ?A it [] ns" by auto
  have "visitNodes m h [] = Some ns" using ctor ns(1) by (simp add: visitNodes_def)
  moreover have "s \<in> set ns"
    using it(5) ns(2) e by (auto simp: collected_def)
  ultimately show ?thesis using ns(2) it(4) by (auto simp: collected_def)
qed

section \<open>Order and coverage of a traversal\<close>

lemma parentsBefore_closed: "parentsBefore h ns \<Longrightarrow> parentClosed h (set ns)"
proof (unfold parentClosed_def, intro ballI)
  fix a assume pb: "parentsBefore h ns" and "a \<in> set ns"
  then obtain i where i: "i < length ns" "ns ! i = a" by (auto simp: in_set_conv_nth)
  with pb have "set (parents h a) \<subseteq> set (take i ns)" by (auto simp: parentsBefore_def)
  also have "\<dots> \<subseteq> set ns" by (rule set_take_subset)
  finally show "set (parents h a) \<subseteq> set ns" .
qed




lemma ancestors_subset:
  assumes "wellformed m h" "set outs \<subseteq> modelNodes m"
  shows "ancestors m h outs \<subseteq> modelNodes m"
proof
  fix a assume "a \<in> ancestors m h outs"
  then obtain out where o: "out \<in> set outs" "(a, out) \<in> (parentRel h (modelNodes m))\<^sup>*"
    by (auto simp: ancestors_def)
  from o(2) show "a \<in> modelNodes m"
  proof (cases rule: converse_rtranclE)
    case base
    with o(1) assms(2) show ?thesis by auto
  next
    case (step y)
    then have "y \<in> modelNodes m" "a \<in> set (parents h y)" by (auto simp: parentRel_def)
    with assms(1) show ?thesis by (auto simp: wellformed_def)
  qed
qed

lemma ancestors_parentClosed:
  assumes "wellformed m h" "set outs \<subseteq> modelNodes m"
  shows "parentClosed h (ancestors m h outs)"
proof (unfold parentClosed_def, intro ballI subsetI)
  fix a p assume a: "a \<in> ancestors m h outs" and p: "p \<in> set (parents h a)"
  from a ancestors_subset[OF assms] have "a \<in> modelNodes m" by blast
  with p have r: "(p, a) \<in> parentRel h (modelNodes m)" by (simp add: parentRel_def)
  from a obtain out where o: "out \<in> set outs" "(a, out) \<in> (parentRel h (modelNodes m))\<^sup>*"
    by (auto simp: ancestors_def)
  from r o(2) have "(p, out) \<in> (parentRel h (modelNodes m))\<^sup>*" by (rule converse_rtrancl_into_rtrancl)
  with o(1) show "p \<in> ancestors m h outs" by (auto simp: ancestors_def)
qed

lemma closed_ancestors:
  assumes pc: "parentClosed h S" and out: "out \<in> S"
  shows "(a, out) \<in> (parentRel h V)\<^sup>* \<Longrightarrow> a \<in> S"
proof (induction rule: converse_rtrancl_induct)
  case base
  show ?case by (rule out)
next
  case (step y z)
  from step(1) have "y \<in> set (parents h z)" by (simp add: parentRel_def)
  with pc step.IH show ?case by (auto simp: parentClosed_def)
qed

text \<open>Claim C4. For an acyclic graph and a non-empty sequence of output nodes of the
  container, the iterator constructed on them emits exactly the ancestors of the output
  nodes, the output nodes included.\<close>

theorem restricted_visit_ancestors:
  assumes "wellformed m h" and "acyclicModel m h"
    and "outputNodes \<noteq> []" and "set outputNodes \<subseteq> modelNodes m"
  shows "\<exists>ns. visitNodes m h outputNodes = Some ns \<and> set ns = ancestors m h outputNodes"
proof -
  let ?A = "ancestors m h outputNodes"
  have sub: "?A \<subseteq> modelNodes m" by (rule ancestors_subset[OF assms(1,4)])
  have fin: "finite ?A" using sub finite_modelNodes by (rule finite_subset)
  have wf: "wf (parentRel h ?A)" by (rule wf_parentRel[OF assms(2) sub])
  have pc: "parentClosed h ?A" by (rule ancestors_parentClosed[OF assms(1,4)])
  have oA: "set outputNodes \<subseteq> ?A" by (auto simp: ancestors_def)
  from assms(3,4) have "modelNodes m \<noteq> {}" by (cases outputNodes) auto
  then have sz: "Size m \<noteq> 0" by (auto simp: modelNodes_def Size_def)
  from visitNodes_restricted[OF fin wf pc assms(3) oA sz]
  obtain ns where ns: "visitNodes m h outputNodes = Some ns" "parentsBefore h ns"
    "set outputNodes \<subseteq> set ns" "set ns \<subseteq> ?A" by blast
  have "?A \<subseteq> set ns"
  proof
    fix a assume "a \<in> ?A"
    then obtain out where o: "out \<in> set outputNodes"
      "(a, out) \<in> (parentRel h (modelNodes m))\<^sup>*" by (auto simp: ancestors_def)
    from o(1) ns(3) have "out \<in> set ns" by blast
    from closed_ancestors[OF parentsBefore_closed[OF ns(2)] this o(2)] show "a \<in> set ns" .
  qed
  with ns(4) have "set ns = ?A" by blast
  with ns(1) show ?thesis by blast
qed

lemma visitNodes_connected:
  assumes "wellformed m h" and "acyclicModel m h" and "connectedModel m h"
    and "idToNodeMap m \<noteq> []"
  shows "\<exists>ns. visitNodes m h [] = Some ns \<and> distinct ns \<and> set ns = modelNodes m"
proof -
  let ?R = "parentRel h (modelNodes m)"
  from assms(4) have sz: "Size m \<noteq> 0" by (simp add: Size_def)
  from visitNodes_full[OF assms(1,2) sz]
  obtain ns where ns: "visitNodes m h [] = Some ns" "parentsBefore h ns" "set ns \<noteq> {}"
    "set ns \<subseteq> modelNodes m" "dependentClosed h (set ns)" "distinct ns" by blast
  from ns(3) have "\<exists>s. s \<in> set ns" by (cases ns) auto
  then obtain s where s: "s \<in> set ns" ..
  have pc: "parentClosed h (set ns)" by (rule parentsBefore_closed[OF ns(2)])
  have reach: "(s, b) \<in> (?R \<union> ?R\<inverse>)\<^sup>* \<Longrightarrow> b \<in> set ns" for b
  proof (induction rule: rtrancl_induct)
    case base
    show ?case by (rule s)
  next
    case (step y z)
    from step(2) show ?case
    proof
      assume "(y, z) \<in> ?R"
      from wellformed_child[OF assms(1) this] have "z \<in> set (GetDependentNodes (h ! y))" by simp
      with ns(5) step.IH show ?thesis by (auto simp: dependentClosed_def)
    next
      assume "(y, z) \<in> ?R\<inverse>"
      then have "z \<in> set (parents h y)" by (simp add: parentRel_def)
      with pc step.IH show ?thesis by (auto simp: parentClosed_def)
    qed
  qed
  have "modelNodes m \<subseteq> set ns"
  proof
    fix b assume b: "b \<in> modelNodes m"
    from s ns(4) have "s \<in> modelNodes m" by blast
    with assms(3) b have "(s, b) \<in> (?R \<union> ?R\<inverse>)\<^sup>*" by (simp add: connectedModel_def)
    then show "b \<in> set ns" by (rule reach)
  qed
  with ns(4) have "set ns = modelNodes m" by blast
  with ns(1) ns(6) show ?thesis by blast
qed

lemma set_move_to_front: "x \<in> set xs \<Longrightarrow> set (x # remove1 x xs) = set xs"
  by (induction xs) auto

lemma modelNodes_reorder:
  "e \<in> set (idToNodeMap m) \<Longrightarrow>
     modelNodes (m\<lparr>idToNodeMap := e # remove1 e (idToNodeMap m)\<rparr>) = modelNodes m"
  using set_move_to_front[of e "idToNodeMap m"] by (simp add: modelNodes_def)

text \<open>Claim C5. For a non-empty container whose graph is acyclic and weakly connected, the
  whole-graph iterator emits every node of the container, whichever entry the map lists
  first for the seed search.\<close>

theorem full_visit_all:
  assumes "wellformed m h" and "acyclicModel m h" and "connectedModel m h"
    and "idToNodeMap m \<noteq> []"
  shows "(\<exists>ns. visitNodes m h [] = Some ns \<and> set ns = modelNodes m) \<and>
         (\<forall>e \<in> set (idToNodeMap m).
            \<exists>ns. visitNodes (m\<lparr>idToNodeMap := e # remove1 e (idToNodeMap m)\<rparr>) h [] = Some ns \<and>
                 set ns = modelNodes m)"
proof (intro conjI ballI)
  from visitNodes_connected[OF assms]
  show "\<exists>ns. visitNodes m h [] = Some ns \<and> set ns = modelNodes m" by blast
next
  fix e assume e: "e \<in> set (idToNodeMap m)"
  let ?m = "m\<lparr>idToNodeMap := e # remove1 e (idToNodeMap m)\<rparr>"
  have mn: "modelNodes ?m = modelNodes m" by (rule modelNodes_reorder[OF e])
  have 1: "wellformed ?m h" using assms(1) unfolding wellformed_def mn .
  have 2: "acyclicModel ?m h" using assms(2) unfolding acyclicModel_def mn .
  have 3: "connectedModel ?m h" using assms(3) unfolding connectedModel_def mn .
  have 4: "idToNodeMap ?m \<noteq> []" by simp
  from visitNodes_connected[OF 1 2 3 4] mn
  show "\<exists>ns. visitNodes ?m h [] = Some ns \<and> set ns = modelNodes m" by auto
qed

section \<open>The stack, the map and the remapping context\<close>

text \<open>Claim C6, as amended. A pass of the loop of \<open>Next\<close> over a top node that is not
  visit-ready leaves the stack below in place, the node included, and pushes the parents of
  all its input ports: the ports in reverse order, the parents of each port in their own
  (forward) order.\<close>

theorem Next_body_not_ready:
  assumes "stack it \<noteq> []" and "last (stack it) \<notin> visitedNodes it"
    and "\<not> canVisit h (visitedNodes it) (last (stack it))"
  shows "Next_body h it =
           (Continue, it\<lparr>stack := stack it @ concat (rev (GetInputPorts (h ! last (stack it))))\<rparr>)"
  using assms by (simp add: Next_body_def pushParents_eq)

lemma map_of_addNodes:
  "map_of (idToNodeMap (fst (addNodes reg nodes (m, w)))) =
     map_of (idToNodeMap m) ++ map_of (rev (insertions reg nodes w))"
proof (induction nodes arbitrary: m w)
  case Nil
  show ?case by simp
next
  case (Cons node nodes)
  let ?w = "reg node w"
  let ?k = "GetId (fst ?w ! node)"
  let ?m1 = "m\<lparr>idToNodeMap := AList.update ?k node (idToNodeMap m)\<rparr>"
  let ?g = "map_of (rev (insertions reg nodes ?w))"
  have "fst (addNodes reg (node # nodes) (m, w)) = fst (addNodes reg nodes (?m1, ?w))"
    by (simp add: Let_def)
  then have 1: "map_of (idToNodeMap (fst (addNodes reg (node # nodes) (m, w)))) =
        map_of (idToNodeMap ?m1) ++ ?g"
    by (simp only: Cons.IH)
  have "idToNodeMap ?m1 = AList.update ?k node (idToNodeMap m)" by simp
  then have 2: "map_of (idToNodeMap ?m1) = (map_of (idToNodeMap m))(?k \<mapsto> node)"
    by (simp only: update_conv')
  have 3: "((map_of (idToNodeMap m))(?k \<mapsto> node)) ++ ?g =
           map_of (idToNodeMap m) ++ ([?k \<mapsto> node] ++ ?g)"
    by (rule ext) (simp add: map_add_def split: option.splits)
  have 4: "[?k \<mapsto> node] ++ ?g = map_of (rev (insertions reg (node # nodes) w))"
    by (simp add: Let_def)
  show ?case unfolding 1 2 3 4 ..
qed

lemma GetNode_fst: "fst (GetNode m i) = map_of (idToNodeMap m) i"
  by (simp add: GetNode_def split: option.splits)

lemma GetNode_snd: "snd (GetNode m i) = m"
  by (simp add: GetNode_def split: option.splits)

lemma run_calls_unregistered:
  "\<forall>c \<in> set calls. \<not> registered i c \<Longrightarrow>
   oldToNewNodeMap ctx i = None \<or> oldToNewNodeMap ctx i = Some None \<Longrightarrow>
   oldToNewNodeMap (run_calls calls ctx) i = None \<or>
   oldToNewNodeMap (run_calls calls ctx) i = Some None"
proof (induction calls arbitrary: ctx)
  case Nil
  then show ?case by simp
next
  case (Cons c calls)
  show ?case
  proof (cases c)
    case (CallGetNodeFromId j)
    have "oldToNewNodeMap (snd (GetNodeFromId ctx j)) i = None \<or>
          oldToNewNodeMap (snd (GetNodeFromId ctx j)) i = Some None"
      using Cons.prems(2) by (auto simp: GetNodeFromId_def split: option.splits)
    with Cons.IH[of "snd (GetNodeFromId ctx j)"] Cons.prems(1) CallGetNodeFromId
    show ?thesis by simp
  next
    case (CallMapNode j node)
    with Cons.prems(1) have "i \<noteq> j" by simp
    then have "oldToNewNodeMap (MapNode ctx j node) i = oldToNewNodeMap ctx i"
      by (simp add: MapNode_def)
    with Cons.IH[of "MapNode ctx j node"] Cons.prems CallMapNode show ?thesis by simp
  qed
qed

lemma run_calls_registered:
  "\<forall>c \<in> set calls. \<not> registered i c \<Longrightarrow> oldToNewNodeMap ctx i = Some node \<Longrightarrow>
   oldToNewNodeMap (run_calls calls ctx) i = Some node"
proof (induction calls arbitrary: ctx)
  case Nil
  then show ?case by simp
next
  case (Cons c calls)
  show ?case
  proof (cases c)
    case (CallGetNodeFromId j)
    have "oldToNewNodeMap (snd (GetNodeFromId ctx j)) i = Some node"
      using Cons.prems(2) by (auto simp: GetNodeFromId_def split: option.splits)
    with Cons.IH[of "snd (GetNodeFromId ctx j)"] Cons.prems(1) CallGetNodeFromId
    show ?thesis by simp
  next
    case (CallMapNode j node')
    with Cons.prems(1) have "i \<noteq> j" by simp
    then have "oldToNewNodeMap (MapNode ctx j node') i = oldToNewNodeMap ctx i"
      by (simp add: MapNode_def)
    with Cons.IH[of "MapNode ctx j node'"] Cons.prems CallMapNode show ?thesis by simp
  qed
qed

lemma GetNodeFromId_null:
  "oldToNewNodeMap ctx i = None \<or> oldToNewNodeMap ctx i = Some None \<Longrightarrow>
     fst (GetNodeFromId ctx i) = None \<and> oldToNewNodeMap (snd (GetNodeFromId ctx i)) i = Some None"
  by (auto simp: GetNodeFromId_def)

text \<open>Claim C9. In a context on which \<open>MapNode\<close> was never called with the id,
  \<open>GetNodeFromId\<close> returns the null pointer; after \<open>MapNode\<close> with the id and a
  node, and any calls that do not map the id again, it returns that node.\<close>

theorem GetNodeFromId_lookup:
  "(\<forall>c \<in> set calls. \<not> registered i c) \<longrightarrow>
     fst (GetNodeFromId (run_calls calls ModelSerializationContext_ctor) i) = None \<and>
     fst (GetNodeFromId (run_calls calls (MapNode ctx i node)) i) = node"
proof
  assume un: "\<forall>c \<in> set calls. \<not> registered i c"
  have "oldToNewNodeMap ModelSerializationContext_ctor i = None"
    by (simp add: ModelSerializationContext_ctor_def)
  with run_calls_unregistered[OF un, of ModelSerializationContext_ctor]
  have 1: "fst (GetNodeFromId (run_calls calls ModelSerializationContext_ctor) i) = None"
    using GetNodeFromId_null by blast
  have "oldToNewNodeMap (MapNode ctx i node) i = Some node" by (simp add: MapNode_def)
  from run_calls_registered[OF un this]
  have 2: "fst (GetNodeFromId (run_calls calls (MapNode ctx i node)) i) = node"
    by (simp add: GetNodeFromId_def)
  from 1 2 show "fst (GetNodeFromId (run_calls calls ModelSerializationContext_ctor) i) = None \<and>
     fst (GetNodeFromId (run_calls calls (MapNode ctx i node)) i) = node" by simp
qed


section \<open>Cycles\<close>

lemma cyclic_parent:
  assumes "n \<in> cyclicNodes m h"
  shows "\<exists>p \<in> set (parents h n). p \<in> cyclicNodes m h"
proof -
  let ?R = "parentRel h (modelNodes m)"
  from assms obtain c where c: "(c, c) \<in> ?R\<^sup>+" "(c, n) \<in> ?R\<^sup>*"
    by (auto simp: cyclicNodes_def)
  then have "(c, n) \<in> ?R\<^sup>+" by (rule trancl_rtrancl_trancl)
  from tranclD2[OF this] obtain z where z: "(c, z) \<in> ?R\<^sup>*" "(z, n) \<in> ?R" by blast
  from z(2) have "z \<in> set (parents h n)" by (simp add: parentRel_def)
  moreover from c(1) z(1) have "z \<in> cyclicNodes m h" by (auto simp: cyclicNodes_def)
  ultimately show ?thesis by blast
qed

lemma Next_times_cyclic:
  assumes wfm: "wellformed m h"
  shows "set (stack it) \<subseteq> modelNodes m \<Longrightarrow> visitedNodes it \<inter> cyclicNodes m h = {} \<Longrightarrow>
         set (stack it) \<inter> cyclicNodes m h \<noteq> {} \<Longrightarrow> \<exists>k. Next_times k h it = None"
proof (induction "card (modelNodes m - visitedNodes it)" arbitrary: it rule: less_induct)
  case less
  let ?V = "modelNodes m" and ?C = "cyclicNodes m h"
  show ?case
  proof (cases "Next h it")
    case None
    then have "Next_times (Suc 0) h it = None" by simp
    then show ?thesis by blast
  next
    case (Some it')
    from less.prems(3) obtain b where b: "b \<in> set (stack it)" "b \<in> ?C" by blast
    with less.prems(2) have bv: "b \<notin> visitedNodes it" by blast
    have "currentNode it' \<noteq> None"
    proof
      assume "currentNode it' = None"
      from Next_exhausted(3)[OF Some this] b(1) bv show False by blast
    qed
    then obtain q where q: "currentNode it' = Some q" by blast
    note em = Next_emitted[OF Some q]
    from em(6)[OF less.prems(1) wellformed_parentClosed[OF wfm]]
    have qV: "q \<in> ?V"
      and st: "set (stack it') \<subseteq> ?V \<union> (if visitFullModel it then set (GetDependentNodes (h ! q)) else {})"
      by auto
    from wellformed_dependentClosed[OF wfm] qV have "set (GetDependentNodes (h ! q)) \<subseteq> ?V"
      by (auto simp: dependentClosed_def)
    with st have st': "set (stack it') \<subseteq> ?V" by (auto split: if_splits)
    have qC: "q \<notin> ?C"
    proof
      assume "q \<in> ?C"
      from cyclic_parent[OF this] obtain p where "p \<in> set (parents h q)" "p \<in> ?C" by blast
      with em(2) less.prems(2) show False by blast
    qed
    have v': "visitedNodes it' \<inter> ?C = {}" using em(3) qC less.prems(2) by auto
    have "b \<in> set (stack it') \<union> visitedNodes it'" using em(4) b(1) by blast
    with v' b(2) have "b \<in> set (stack it')" by blast
    with b(2) have s': "set (stack it') \<inter> ?C \<noteq> {}" by blast
    have "?V - visitedNodes it' \<subset> ?V - visitedNodes it" using em(1,3) qV by auto
    then have "card (?V - visitedNodes it') < card (?V - visitedNodes it)"
      using finite_modelNodes by (intro psubset_card_mono) auto
    from less.hyps[OF this st' v' s'] obtain k where "Next_times k h it' = None" by blast
    with Some have "Next_times (Suc k) h it = None" by simp
    then show ?thesis by blast
  qed
qed

lemma Next_returns_uncyclic:
  assumes wfm: "wellformed m h" and stk: "set (stack it) \<subseteq> modelNodes m"
    and un: "set (stack it) \<inter> cyclicNodes m h = {}"
  shows "\<exists>it'. Next h it = Some it'"
proof -
  let ?R = "parentRel h (modelNodes m)"
  let ?A = "ancestors m h (stack it)"
  have sub: "?A \<subseteq> modelNodes m" by (rule ancestors_subset[OF wfm stk])
  have fin: "finite ?A" using sub finite_modelNodes by (rule finite_subset)
  have pc: "parentClosed h ?A" by (rule ancestors_parentClosed[OF wfm stk])
  have sA: "set (stack it) \<subseteq> ?A" by (auto simp: ancestors_def)
  have "acyclic (parentRel h ?A)"
  proof (rule acyclicI, intro allI notI)
    fix x assume x: "(x, x) \<in> (parentRel h ?A)\<^sup>+"
    from tranclD2[OF x] obtain z where "(z, x) \<in> parentRel h ?A" by blast
    then have "x \<in> ?A" by (simp add: parentRel_def)
    then obtain out where out: "out \<in> set (stack it)" "(x, out) \<in> ?R\<^sup>*"
      by (auto simp: ancestors_def)
    have "(parentRel h ?A)\<^sup>+ \<subseteq> ?R\<^sup>+" by (rule trancl_mono_subset[OF parentRel_mono[OF sub]])
    with x have "(x, x) \<in> ?R\<^sup>+" by blast
    with out(2) have "out \<in> cyclicNodes m h" by (auto simp: cyclicNodes_def)
    with out(1) un show False by blast
  qed
  with finite_parentRel[OF fin] have wf: "wf (parentRel h ?A)"
    by (simp add: wf_iff_acyclic_if_finite)
  from pc have pc': "\<forall>a \<in> ?A. set (parents h a) \<subseteq> ?A" by (simp add: parentClosed_def)
  have "\<exists>it'. Next_loop h (it\<lparr>currentNode := None\<rparr>) = Some it'"
    by (rule Next_loop_terminates[OF wf pc']) (use sA in simp)
  then show ?thesis by (simp add: Next_def)
qed

text \<open>Claim C2, as amended. On a well-formed container, with the stack holding nodes of the
  container: \<open>Next\<close> returns whenever the dependency relation is acyclic; \<open>Next\<close>
  returns, whatever cycles the graph has, whenever no node on the stack has an ancestor
  on a dependency cycle; and when a node on the stack has an ancestor on a dependency
  cycle and no such node was emitted before, one of finitely many repeated calls of
  \<open>Next\<close> does not return.\<close>

theorem Next_returns_or_loops:
  "(wellformed m h \<and> acyclicModel m h \<and> set (stack it) \<subseteq> modelNodes m \<longrightarrow>
      (\<exists>it'. Next h it = Some it')) \<and>
   (wellformed m h \<and> set (stack it) \<subseteq> modelNodes m \<and>
    set (stack it) \<inter> cyclicNodes m h = {} \<longrightarrow>
      (\<exists>it'. Next h it = Some it')) \<and>
   (wellformed m h \<and> set (stack it) \<subseteq> modelNodes m \<and>
    visitedNodes it \<inter> cyclicNodes m h = {} \<and> set (stack it) \<inter> cyclicNodes m h \<noteq> {} \<longrightarrow>
      (\<exists>k. Next_times k h it = None))"
proof (intro conjI impI)
  assume a: "wellformed m h \<and> acyclicModel m h \<and> set (stack it) \<subseteq> modelNodes m"
  then have wf: "wf (parentRel h (modelNodes m))" by (intro wf_parentRel[of m h]) auto
  from a have pc: "\<forall>a \<in> modelNodes m. set (parents h a) \<subseteq> modelNodes m"
    by (simp add: wellformed_def)
  have "\<exists>it'. Next_loop h (it\<lparr>currentNode := None\<rparr>) = Some it'"
    by (rule Next_loop_terminates[OF wf pc]) (use a in simp)
  then show "\<exists>it'. Next h it = Some it'" by (simp add: Next_def)
next
  assume "wellformed m h \<and> set (stack it) \<subseteq> modelNodes m \<and>
    set (stack it) \<inter> cyclicNodes m h = {}"
  then show "\<exists>it'. Next h it = Some it'" using Next_returns_uncyclic[of m h it] by blast
next
  assume "wellformed m h \<and> set (stack it) \<subseteq> modelNodes m \<and>
    visitedNodes it \<inter> cyclicNodes m h = {} \<and> set (stack it) \<inter> cyclicNodes m h \<noteq> {}"
  then show "\<exists>k. Next_times k h it = None" using Next_times_cyclic[of m h it] by blast
qed

section \<open>Restores and lookups\<close>

lemma SetObjectState_fst:
  "decode d h = (nodes, h1) \<Longrightarrow>
     fst (SetObjectState decode reg d context (m, h)) =
       fst (addNodes (onStore reg) nodes (m, (h1, ModelSerializationContext_ctor)))"
  by (simp add: SetObjectState_def split: prod.splits)

lemma Deserialize_fst:
  "decode d (h, ModelSerializationContext_ctor) = (nodes, w) \<Longrightarrow>
     fst (Deserialize decode reg d (m, h)) = fst (addNodes reg nodes (m, w))"
  by (simp add: Deserialize_def split: prod.splits)

lemma GetNode_addNodes:
  "fst (GetNode (fst (addNodes reg nodes (m, w))) i) =
     (case map_of (rev (insertions reg nodes w)) i of
        None \<Rightarrow> fst (GetNode m i)
      | Some n \<Rightarrow> Some n)"
  by (simp only: GetNode_fst map_of_addNodes map_add_def)

text \<open>Claim C7. A restore, by \<open>SetObjectState\<close> or by \<open>Deserialize\<close>, only adds or replaces
  entries of the map: an id that no restored node carries is looked up as before, and an
  id that a restored node carries is looked up as the last restored node with that id,
  whatever the map held for it; the restore returns a container and has no way to report
  the collision.\<close>

theorem restore_merges:
  "(i \<notin> fst ` set (written decode reg d h) \<longrightarrow>
      fst (GetNode (fst (SetObjectState decode reg d context (m, h))) i) = fst (GetNode m i)) \<and>
   (\<forall>n. map_of (rev (written decode reg d h)) i = Some n \<longrightarrow>
      fst (GetNode (fst (SetObjectState decode reg d context (m, h))) i) = Some n) \<and>
   (i \<notin> fst ` set (restored decode' reg' d' h) \<longrightarrow>
      fst (GetNode (fst (Deserialize decode' reg' d' (m, h))) i) = fst (GetNode m i)) \<and>
   (\<forall>n. map_of (rev (restored decode' reg' d' h)) i = Some n \<longrightarrow>
      fst (GetNode (fst (Deserialize decode' reg' d' (m, h))) i) = Some n)"
proof -
  obtain nodes h1 where dec: "decode d h = (nodes, h1)" by (cases "decode d h")
  obtain nodes' w where dec': "decode' d' (h, ModelSerializationContext_ctor) = (nodes', w)"
    by (cases "decode' d' (h, ModelSerializationContext_ctor)")
  have r: "written decode reg d h =
      insertions (onStore reg) nodes (h1, ModelSerializationContext_ctor)"
    by (simp add: written_def dec)
  have r': "restored decode' reg' d' h = insertions reg' nodes' w"
    by (simp add: restored_def dec')
  have none: "map_of (rev xs) i = None" if "i \<notin> fst ` set xs" for xs :: "(NodeId \<times> node_ptr) list"
    using that by (simp add: map_of_eq_None_iff)
  have s: "fst (SetObjectState decode reg d context (m, h)) =
       fst (addNodes (onStore reg) nodes (m, (h1, ModelSerializationContext_ctor)))"
    using dec by (rule SetObjectState_fst)
  have s': "fst (Deserialize decode' reg' d' (m, h)) = fst (addNodes reg' nodes' (m, w))"
    using dec' by (rule Deserialize_fst)
  show ?thesis
    unfolding r r' s s' GetNode_addNodes
    using none by (auto split: option.splits)
qed

text \<open>Claim C8. Looking up an id that no entry of the container carries returns no node, with
  no error, and leaves the container as it was; the same holds after a restore, by
  \<open>SetObjectState\<close> or by \<open>Deserialize\<close>, of nodes with other ids.\<close>

theorem GetNode_absent:
  "i \<notin> fst ` set (idToNodeMap m) \<longrightarrow>
     GetNode m i = (None, m) \<and>
     (i \<notin> fst ` set (written decode reg d h) \<longrightarrow>
        GetNode (fst (SetObjectState decode reg d context (m, h))) i =
          (None, fst (SetObjectState decode reg d context (m, h)))) \<and>
     (i \<notin> fst ` set (restored decode' reg' d' h) \<longrightarrow>
        GetNode (fst (Deserialize decode' reg' d' (m, h))) i =
          (None, fst (Deserialize decode' reg' d' (m, h))))"
proof (intro impI conjI)
  assume a: "i \<notin> fst ` set (idToNodeMap m)"
  then have n: "map_of (idToNodeMap m) i = None" by (simp add: map_of_eq_None_iff)
  then show "GetNode m i = (None, m)" by (simp add: GetNode_def)
  have absent: "GetNode (fst (addNodes r nodes (m, w))) i = (None, fst (addNodes r nodes (m, w)))"
    if "i \<notin> fst ` set (insertions r nodes w)" for r nodes w
  proof -
    from that have "map_of (rev (insertions r nodes w)) i = None"
      by (simp add: map_of_eq_None_iff)
    with n have "map_of (idToNodeMap (fst (addNodes r nodes (m, w)))) i = None"
      by (simp add: map_of_addNodes map_add_def)
    then show ?thesis by (simp add: GetNode_def)
  qed
  {
    assume b: "i \<notin> fst ` set (written decode reg d h)"
    obtain nodes h1 where dec: "decode d h = (nodes, h1)" by (cases "decode d h")
    have r: "written decode reg d h =
        insertions (onStore reg) nodes (h1, ModelSerializationContext_ctor)"
      by (simp add: written_def dec)
    have s: "fst (SetObjectState decode reg d context (m, h)) =
         fst (addNodes (onStore reg) nodes (m, (h1, ModelSerializationContext_ctor)))"
      using dec by (rule SetObjectState_fst)
    from absent[of "onStore reg" nodes "(h1, ModelSerializationContext_ctor)"] b
    show "GetNode (fst (SetObjectState decode reg d context (m, h))) i =
          (None, fst (SetObjectState decode reg d context (m, h)))"
      unfolding r s by simp
  }
  {
    assume b: "i \<notin> fst ` set (restored decode' reg' d' h)"
    obtain nodes w where dec: "decode' d' (h, ModelSerializationContext_ctor) = (nodes, w)"
      by (cases "decode' d' (h, ModelSerializationContext_ctor)")
    have r: "restored decode' reg' d' h = insertions reg' nodes w"
      by (simp add: restored_def dec)
    have s: "fst (Deserialize decode' reg' d' (m, h)) = fst (addNodes reg' nodes (m, w))"
      using dec by (rule Deserialize_fst)
    from absent[of reg' nodes w] b
    show "GetNode (fst (Deserialize decode' reg' d' (m, h))) i =
          (None, fst (Deserialize decode' reg' d' (m, h)))"
      unfolding r s by simp
  }
qed

section \<open>The example graphs\<close>

lemma acyclic_by_rank:
  fixes f :: "'a \<Rightarrow> nat"
  assumes "\<And>p n. (p, n) \<in> R \<Longrightarrow> f p < f n"
  shows "acyclic R"
proof -
  have "R \<subseteq> inv_image less_than f" using assms by auto
  moreover have "wf (inv_image less_than f)" by simp
  ultimately have "wf R" by (rule wf_subset[rotated])
  then show ?thesis by (rule wf_acyclic)
qed

lemma wellformed_code:
  "wellformed m h \<longleftrightarrow>
     (\<forall>n \<in> set (map snd (idToNodeMap m)).
        n < length h \<and> set (parents h n) \<subseteq> set (map snd (idToNodeMap m)) \<and>
        set (GetDependentNodes (h ! n)) =
          set (filter (\<lambda>d. n \<in> set (parents h d)) (map snd (idToNodeMap m))))"
  by (auto simp: wellformed_def modelNodes_def)

lemma acyclicModel_by_rank:
  fixes f :: "node_ptr \<Rightarrow> nat"
  assumes "\<forall>n \<in> set (map snd (idToNodeMap m)). \<forall>p \<in> set (parents h n). f p < f n"
  shows "acyclicModel m h"
  unfolding acyclicModel_def
proof (rule acyclic_by_rank[where f = f])
  fix p n assume "(p, n) \<in> parentRel h (modelNodes m)"
  with assms show "f p < f n" by (auto simp: parentRel_def modelNodes_def)
qed

lemma connectedModel_by_root:
  assumes "\<forall>a \<in> modelNodes m.
     (a, r) \<in> (parentRel h (modelNodes m) \<union> (parentRel h (modelNodes m))\<inverse>)\<^sup>*"
  shows "connectedModel m h"
  unfolding connectedModel_def
proof (intro ballI)
  let ?S = "parentRel h (modelNodes m) \<union> (parentRel h (modelNodes m))\<inverse>"
  fix a b assume a: "a \<in> modelNodes m" and b: "b \<in> modelNodes m"
  have "sym ?S" by (auto simp: sym_def)
  then have "sym (?S\<^sup>*)" by (rule sym_rtrancl)
  moreover from assms b have "(b, r) \<in> ?S\<^sup>*" by blast
  ultimately have "(r, b) \<in> ?S\<^sup>*" by (auto dest: symD)
  with assms a show "(a, b) \<in> ?S\<^sup>*" by (auto intro: rtrancl_trans)
qed

lemma diamond_wellformed: "wellformed diamondModel diamondHeap"
  by (simp add: wellformed_code diamondModel_def diamondHeap_def mkNode_def parents_def)

lemma diamond_acyclic: "acyclicModel diamondModel diamondHeap"
  by (rule acyclicModel_by_rank[where f = id])
    (simp add: diamondModel_def diamondHeap_def mkNode_def parents_def)

lemma diamond_connected: "connectedModel diamondModel diamondHeap"
proof (rule connectedModel_by_root[where r = 0])
  let ?R = "parentRel diamondHeap (modelNodes diamondModel)"
  have e: "(0, 1) \<in> ?R" "(0, 2) \<in> ?R" "(1, 3) \<in> ?R"
    by (simp_all add: parentRel_def modelNodes_def diamondModel_def diamondHeap_def
        mkNode_def parents_def)
  have 1: "(1, 0) \<in> (?R \<union> ?R\<inverse>)\<^sup>*" using e(1) by blast
  have 2: "(2, 0) \<in> (?R \<union> ?R\<inverse>)\<^sup>*" using e(2) by blast
  have "(3, 1) \<in> (?R \<union> ?R\<inverse>)\<^sup>*" using e(3) by blast
  with 1 have 3: "(3, 0) \<in> (?R \<union> ?R\<inverse>)\<^sup>*" by (rule rtrancl_trans[rotated])
  have "modelNodes diamondModel = {0, 1, 2, 3}"
    by (auto simp: modelNodes_def diamondModel_def)
  with 1 2 3 show "\<forall>a \<in> modelNodes diamondModel. (a, 0) \<in> (?R \<union> ?R\<inverse>)\<^sup>*" by simp
qed


lemma cycle_wellformed: "wellformed cycleModel cycleHeap"
  by (simp add: wellformed_code cycleModel_def cycleHeap_def mkNode_def parents_def)

lemma cycle_cyclic: "(1, 1) \<in> (parentRel cycleHeap (modelNodes cycleModel))\<^sup>+"
proof -
  have "(1, 2) \<in> parentRel cycleHeap (modelNodes cycleModel)"
    "(2, 1) \<in> parentRel cycleHeap (modelNodes cycleModel)"
    by (simp_all add: parentRel_def modelNodes_def cycleModel_def cycleHeap_def
        mkNode_def parents_def)
  then show ?thesis by (rule trancl_into_trancl2[OF _ r_into_trancl])
qed

lemma fedCycle_wellformed: "wellformed fedCycleModel fedCycleHeap"
  by (simp add: wellformed_code fedCycleModel_def fedCycleHeap_def mkNode_def parents_def)

lemma fedCycle_cyclic: "(1, 1) \<in> (parentRel fedCycleHeap (modelNodes fedCycleModel))\<^sup>+"
proof -
  have "(1, 2) \<in> parentRel fedCycleHeap (modelNodes fedCycleModel)"
    "(2, 1) \<in> parentRel fedCycleHeap (modelNodes fedCycleModel)"
    by (simp_all add: parentRel_def modelNodes_def fedCycleModel_def fedCycleHeap_def
        mkNode_def parents_def)
  then show ?thesis by (rule trancl_into_trancl2[OF _ r_into_trancl])
qed

lemma fedCycle_source: "0 \<notin> cyclicNodes fedCycleModel fedCycleHeap"
proof
  assume "0 \<in> cyclicNodes fedCycleModel fedCycleHeap"
  from cyclic_parent[OF this] show False
    by (simp add: parents_def fedCycleHeap_def mkNode_def)
qed

theorem Next_returns_or_loops_witness:
  "(wellformed diamondModel diamondHeap \<and> acyclicModel diamondModel diamondHeap \<and>
    set [3] \<subseteq> modelNodes diamondModel \<and>
    (\<exists>it'. Next diamondHeap
       \<lparr>stack = [3], visitedNodes = {}, currentNode = None, visitFullModel = False\<rparr> = Some it')) \<and>
   (wellformed fedCycleModel fedCycleHeap \<and> set [0] \<subseteq> modelNodes fedCycleModel \<and>
    set [0] \<inter> cyclicNodes fedCycleModel fedCycleHeap = {} \<and>
    \<not> acyclicModel fedCycleModel fedCycleHeap \<and>
    (\<exists>it'. Next fedCycleHeap
       \<lparr>stack = [0], visitedNodes = {}, currentNode = None, visitFullModel = False\<rparr> = Some it')) \<and>
   (wellformed cycleModel cycleHeap \<and> set [1] \<subseteq> modelNodes cycleModel \<and>
    {} \<inter> cyclicNodes cycleModel cycleHeap = {} \<and> set [1] \<inter> cyclicNodes cycleModel cycleHeap \<noteq> {} \<and>
    (\<exists>k. Next_times k cycleHeap
       \<lparr>stack = [1], visitedNodes = {}, currentNode = None, visitFullModel = False\<rparr> = None))"
proof -
  have s: "set [3] \<subseteq> modelNodes diamondModel" by (simp add: modelNodes_def diamondModel_def)
  have s0: "set [0] \<subseteq> modelNodes fedCycleModel" by (simp add: modelNodes_def fedCycleModel_def)
  have s1: "set [1] \<subseteq> modelNodes cycleModel" by (simp add: modelNodes_def cycleModel_def)
  have u: "set [0] \<inter> cyclicNodes fedCycleModel fedCycleHeap = {}"
    using fedCycle_source by simp
  have na: "\<not> acyclicModel fedCycleModel fedCycleHeap"
    using fedCycle_cyclic by (auto simp: acyclicModel_def acyclic_def)
  have "1 \<in> cyclicNodes cycleModel cycleHeap"
    using cycle_cyclic by (auto simp: cyclicNodes_def)
  then have c: "set [1] \<inter> cyclicNodes cycleModel cycleHeap \<noteq> {}" by auto
  let ?ia = "\<lparr>stack = [3], visitedNodes = {}, currentNode = None, visitFullModel = False\<rparr>"
  let ?ib = "\<lparr>stack = [0], visitedNodes = {}, currentNode = None, visitFullModel = False\<rparr>"
  let ?ic = "\<lparr>stack = [1], visitedNodes = {}, currentNode = None, visitFullModel = False\<rparr>"
  from Next_returns_or_loops[of diamondModel diamondHeap ?ia] diamond_wellformed diamond_acyclic s
  have 1: "\<exists>it'. Next diamondHeap ?ia = Some it'" by simp
  from Next_returns_or_loops[of fedCycleModel fedCycleHeap ?ib] fedCycle_wellformed s0 u
  have 2: "\<exists>it'. Next fedCycleHeap ?ib = Some it'" by simp
  from Next_returns_or_loops[of cycleModel cycleHeap ?ic] cycle_wellformed s1 c
  have 3: "\<exists>k. Next_times k cycleHeap ?ic = None" by simp
  from 1 2 3 diamond_wellformed diamond_acyclic s fedCycle_wellformed s0 u na
    cycle_wellformed s1 c
  show ?thesis by simp
qed

text \<open>A cycle that the iterator does not reach: the dependency relation of the example
  has a cycle between the nodes 1 and 2, and the iterator on the output node 0 emits it and
  is exhausted, every call of \<open>Next\<close> returning.\<close>

theorem cycle_unreached_counterexample:
  "(1, 1) \<in> (parentRel cycleHeap (modelNodes cycleModel))\<^sup>+ \<and>
   visitNodes cycleModel cycleHeap [0] = Some [0] \<and>
   Option.bind (NodeIterator_ctor cycleModel cycleHeap [0]) (Next_times 3 cycleHeap) \<noteq> None"
proof -
  have "visitNodes cycleModel cycleHeap [0] = Some [0]" by code_simp
  moreover have "Option.bind (NodeIterator_ctor cycleModel cycleHeap [0]) (Next_times 3 cycleHeap) \<noteq> None"
    by code_simp
  ultimately show ?thesis using cycle_cyclic by simp
qed

theorem restricted_visit_ancestors_witness:
  "wellformed diamondModel diamondHeap \<and> acyclicModel diamondModel diamondHeap \<and>
   [1] \<noteq> [] \<and> set [1] \<subseteq> modelNodes diamondModel \<and>
   (\<exists>ns. visitNodes diamondModel diamondHeap [1] = Some ns \<and>
          set ns = ancestors diamondModel diamondHeap [1])"
proof -
  have s: "set [1] \<subseteq> modelNodes diamondModel" by (simp add: modelNodes_def diamondModel_def)
  have n: "[1::node_ptr] \<noteq> []" by simp
  from restricted_visit_ancestors[OF diamond_wellformed diamond_acyclic n s]
    diamond_wellformed diamond_acyclic s
  show ?thesis by simp
qed

theorem full_visit_all_witness:
  "wellformed diamondModel diamondHeap \<and> acyclicModel diamondModel diamondHeap \<and>
   connectedModel diamondModel diamondHeap \<and> idToNodeMap diamondModel \<noteq> [] \<and>
   (\<exists>ns. visitNodes diamondModel diamondHeap [] = Some ns \<and> set ns = modelNodes diamondModel) \<and>
   (13, 3) \<in> set (idToNodeMap diamondModel) \<and>
   (\<exists>ns. visitNodes
           (diamondModel\<lparr>idToNodeMap := (13, 3) # remove1 (13, 3) (idToNodeMap diamondModel)\<rparr>)
           diamondHeap [] = Some ns \<and>
         set ns = modelNodes diamondModel)"
proof -
  have n: "idToNodeMap diamondModel \<noteq> []" by (simp add: diamondModel_def)
  have e: "(13, 3) \<in> set (idToNodeMap diamondModel)" by (simp add: diamondModel_def)
  from full_visit_all[OF diamond_wellformed diamond_acyclic diamond_connected n]
    diamond_wellformed diamond_acyclic diamond_connected n e
  show ?thesis by blast
qed

theorem Next_body_not_ready_witness:
  "stack joinIterator \<noteq> [] \<and> last (stack joinIterator) \<notin> visitedNodes joinIterator \<and>
   \<not> canVisit joinHeap (visitedNodes joinIterator) (last (stack joinIterator)) \<and>
   Next_body joinHeap joinIterator = (Continue, joinIterator\<lparr>stack := [2, 0, 1]\<rparr>)"
proof -
  have 1: "stack joinIterator \<noteq> []" by (simp add: joinIterator_def)
  have 2: "last (stack joinIterator) \<notin> visitedNodes joinIterator" by (simp add: joinIterator_def)
  have 3: "\<not> canVisit joinHeap (visitedNodes joinIterator) (last (stack joinIterator))"
    by (simp add: joinIterator_def joinHeap_def mkNode_def canVisit_def)
  have "joinIterator\<lparr>stack := stack joinIterator @
          concat (rev (GetInputPorts (joinHeap ! last (stack joinIterator))))\<rparr> =
        joinIterator\<lparr>stack := [2, 0, 1]\<rparr>"
    by (simp add: joinIterator_def joinHeap_def mkNode_def)
  with Next_body_not_ready[OF 1 2 3] 1 2 3 show ?thesis by simp
qed

text \<open>The order within a port: the parents 0 and 1 of the only port are pushed as 0, then 1;
  the reverse parent order would leave 0 on top.\<close>

theorem reverse_parent_order_counterexample:
  "stack joinIterator \<noteq> [] \<and> last (stack joinIterator) \<notin> visitedNodes joinIterator \<and>
   \<not> canVisit joinHeap (visitedNodes joinIterator) (last (stack joinIterator)) \<and>
   stack (snd (Next_body joinHeap joinIterator)) = [2, 0, 1] \<and>
   stack joinIterator @ concat (rev (map rev (GetInputPorts (joinHeap ! last (stack joinIterator)))))
     = [2, 1, 0] \<and>
   stack (snd (Next_body joinHeap joinIterator)) \<noteq>
     stack joinIterator @ concat (rev (map rev (GetInputPorts (joinHeap ! last (stack joinIterator)))))"
  by (simp add: joinIterator_def joinHeap_def mkNode_def canVisit_def Next_body_def
      pushParents_def)

lemma merge_written: "written readBuilt linkNothing [2] mergeHeap = [(40, 2)]"
  by (simp add: written_def readBuilt_def linkNothing_def onStore_def mergeHeap_def mkNode_def)

lemma merge_restored: "restored decodeBuilt registerNothing [2] mergeHeap = [(40, 2)]"
  by (simp add: restored_def decodeBuilt_def registerNothing_def mergeHeap_def mkNode_def)

theorem restore_merges_witness:
  "41 \<notin> fst ` set (written readBuilt linkNothing [2] mergeHeap) \<and>
   41 \<notin> fst ` set (restored decodeBuilt registerNothing [2] mergeHeap) \<and>
   fst (GetNode (fst (SetObjectState readBuilt linkNothing [2] ModelSerializationContext_ctor
                        (mergeModel, mergeHeap))) 41)
     = fst (GetNode mergeModel 41) \<and>
   fst (GetNode (fst (Deserialize decodeBuilt registerNothing [2] (mergeModel, mergeHeap))) 41)
     = fst (GetNode mergeModel 41) \<and>
   map_of (rev (written readBuilt linkNothing [2] mergeHeap)) 40 = Some 2 \<and>
   map_of (rev (restored decodeBuilt registerNothing [2] mergeHeap)) 40 = Some 2 \<and>
   fst (GetNode mergeModel 40) = Some 0 \<and>
   fst (GetNode (fst (SetObjectState readBuilt linkNothing [2] ModelSerializationContext_ctor
                        (mergeModel, mergeHeap))) 40)
     = Some 2 \<and>
   fst (GetNode (fst (Deserialize decodeBuilt registerNothing [2] (mergeModel, mergeHeap))) 40)
     = Some 2"
proof -
  have 1: "41 \<notin> fst ` set (written readBuilt linkNothing [2] mergeHeap)"
    "41 \<notin> fst ` set (restored decodeBuilt registerNothing [2] mergeHeap)"
    unfolding merge_written merge_restored by simp_all
  have 2: "map_of (rev (written readBuilt linkNothing [2] mergeHeap)) 40 = Some 2"
    "map_of (rev (restored decodeBuilt registerNothing [2] mergeHeap)) 40 = Some 2"
    unfolding merge_written merge_restored by simp_all
  have 3: "fst (GetNode mergeModel 40) = Some 0" by (simp add: GetNode_def mergeModel_def)
  from restore_merges[of 41 readBuilt linkNothing "[2]" mergeHeap ModelSerializationContext_ctor
      mergeModel decodeBuilt registerNothing "[2]"]
    restore_merges[of 40 readBuilt linkNothing "[2]" mergeHeap ModelSerializationContext_ctor
      mergeModel decodeBuilt registerNothing "[2]"] 1 2 3
  show ?thesis by simp
qed

theorem GetNode_absent_witness:
  "99 \<notin> fst ` set (idToNodeMap mergeModel) \<and>
   GetNode mergeModel 99 = (None, mergeModel) \<and>
   99 \<notin> fst ` set (written readBuilt linkNothing [2] mergeHeap) \<and>
   GetNode (fst (SetObjectState readBuilt linkNothing [2] ModelSerializationContext_ctor
                   (mergeModel, mergeHeap))) 99 =
     (None, fst (SetObjectState readBuilt linkNothing [2] ModelSerializationContext_ctor
                   (mergeModel, mergeHeap))) \<and>
   99 \<notin> fst ` set (restored decodeBuilt registerNothing [2] mergeHeap) \<and>
   GetNode (fst (Deserialize decodeBuilt registerNothing [2] (mergeModel, mergeHeap))) 99 =
     (None, fst (Deserialize decodeBuilt registerNothing [2] (mergeModel, mergeHeap)))"
proof -
  have 1: "99 \<notin> fst ` set (idToNodeMap mergeModel)" by (simp add: mergeModel_def)
  have 2: "99 \<notin> fst ` set (written readBuilt linkNothing [2] mergeHeap)"
    "99 \<notin> fst ` set (restored decodeBuilt registerNothing [2] mergeHeap)"
    unfolding merge_written merge_restored by simp_all
  from GetNode_absent[of 99 mergeModel readBuilt linkNothing "[2]" mergeHeap
      ModelSerializationContext_ctor decodeBuilt registerNothing "[2]"] 1 2
  show ?thesis by simp
qed

theorem GetNodeFromId_lookup_witness:
  "\<not> registered 5 (CallGetNodeFromId 5) \<and> \<not> registered 5 (CallMapNode 7 (Some 1)) \<and>
   fst (GetNodeFromId
          (run_calls [CallGetNodeFromId 5, CallMapNode 7 (Some 1)] ModelSerializationContext_ctor) 5)
     = None \<and>
   fst (GetNodeFromId
          (run_calls [CallGetNodeFromId 5, CallMapNode 7 (Some 1)]
             (MapNode ModelSerializationContext_ctor 5 (Some 3))) 5)
     = Some 3"
proof -
  have 1: "\<forall>c \<in> set [CallGetNodeFromId 5, CallMapNode 7 (Some 1)]. \<not> registered 5 c" by simp
  from GetNodeFromId_lookup[of "[CallGetNodeFromId 5, CallMapNode 7 (Some 1)]" 5
      ModelSerializationContext_ctor "Some 3"] 1
  show ?thesis by simp
qed



section \<open>Describe and restore\<close>
































text \<open>The order of a list of dependents is not restored: a node whose dependents are
  listed with the later one first is restored with its dependents in the order of the
  description.\<close>

lemma chord_wellformed: "wellformed chordModel chordHeap"
  by (auto simp: wellformed_code chordModel_def chordHeap_def mkNode_def parents_def)

lemma chord_acyclic: "acyclicModel chordModel chordHeap"
  by (rule acyclicModel_by_rank[where f = id])
    (simp add: chordModel_def chordHeap_def mkNode_def parents_def)

lemma chord_connected: "connectedModel chordModel chordHeap"
proof (rule connectedModel_by_root[where r = 0])
  let ?R = "parentRel chordHeap (modelNodes chordModel)"
  have e: "(0, 1) \<in> ?R" "(0, 2) \<in> ?R"
    by (simp_all add: parentRel_def modelNodes_def chordModel_def chordHeap_def
        mkNode_def parents_def)
  have 1: "(1, 0) \<in> (?R \<union> ?R\<inverse>)\<^sup>*" using e(1) by blast
  have 2: "(2, 0) \<in> (?R \<union> ?R\<inverse>)\<^sup>*" using e(2) by blast
  have "modelNodes chordModel = {0, 1, 2}"
    by (auto simp: modelNodes_def chordModel_def)
  with 1 2 show "\<forall>a \<in> modelNodes chordModel. (a, 0) \<in> (?R \<union> ?R\<inverse>)\<^sup>*" by simp
qed

lemma chord_keyedById: "keyedById chordModel chordHeap"
  by (simp add: keyedById_def chordModel_def chordHeap_def mkNode_def)

lemma chord_dependents_reordered:
  "GetDescription chordModel chordHeap =
     Some [\<lparr>entryId = 60, entryParentIds = []\<rparr>, \<lparr>entryId = 61, entryParentIds = [[60]]\<rparr>,
           \<lparr>entryId = 62, entryParentIds = [[60], [61]]\<rparr>] \<and>
   map (\<lambda>d. GetId (chordHeap ! d)) (GetDependentNodes (chordHeap ! 0)) = [62, 61] \<and>
   fst (GetNode (fst (SetObjectState readNodes RegisterDependencies
      [\<lparr>entryId = 60, entryParentIds = []\<rparr>, \<lparr>entryId = 61, entryParentIds = [[60]]\<rparr>,
       \<lparr>entryId = 62, entryParentIds = [[60], [61]]\<rparr>] ModelSerializationContext_ctor
      (\<lparr>idToNodeMap = []\<rparr>, chordHeap))) 60) = Some 3 \<and>
   map (\<lambda>d. GetId (snd (SetObjectState readNodes RegisterDependencies
      [\<lparr>entryId = 60, entryParentIds = []\<rparr>, \<lparr>entryId = 61, entryParentIds = [[60]]\<rparr>,
       \<lparr>entryId = 62, entryParentIds = [[60], [61]]\<rparr>] ModelSerializationContext_ctor
      (\<lparr>idToNodeMap = []\<rparr>, chordHeap)) ! d))
     (GetDependentNodes (snd (SetObjectState readNodes RegisterDependencies
      [\<lparr>entryId = 60, entryParentIds = []\<rparr>, \<lparr>entryId = 61, entryParentIds = [[60]]\<rparr>,
       \<lparr>entryId = 62, entryParentIds = [[60], [61]]\<rparr>] ModelSerializationContext_ctor
      (\<lparr>idToNodeMap = []\<rparr>, chordHeap)) ! 3)) = [61, 62]"
  by code_simp

end
